theory Spec2Isabelle
  imports Complex_Main
begin

section \<open>The golden ratio fractal codec (Phi-fractal-codec.js)\<close>

text \<open>
  A shallow embedding of the class \<open>GoldenRatioFractalCodec\<close>. Samples are JavaScript
  numbers, that is IEEE 754 doubles: a sample is the real value of a finite double, and the
  arithmetic of \<open>calculateCorrelation\<close> and of its threshold test rounds every
  result to the nearest double, with the special values \<open>Infinity\<close>, \<open>-Infinity\<close> and
  \<open>NaN\<close>. The golden-ratio segment sizes and steps (\<open>Math.floor\<close> of a product with
  \<open>PHI_INV\<close>) and the one quotient of the ratio estimator are computed exactly.
  Sizes, offsets and indices are \<open>nat\<close>; the signed size arithmetic of the ratio
  estimator is \<open>int\<close>. The wall-clock field \<open>processingTime\<close> of the encode result is
  left out. A loop that may run forever returns \<open>None\<close>. A field name that the
  source uses in several objects carries a prefix here (\<open>seg_\<close>, \<open>m_\<close>, \<open>h_\<close>,
  \<open>ms_\<close>, \<open>r_\<close>, \<open>res_\<close>, \<open>e_\<close>).
\<close>

subsection \<open>JavaScript numbers\<close>

text \<open>
  Rounding to the nearest double, ties to even: \<open>rne\<close> rounds a real to the nearest
  integer, \<open>expo\<close> is the binary exponent of a value (held at \<open>-1022\<close> in the
  subnormal range), \<open>ulp\<close> the spacing of the doubles there (53 significant bits) and
  \<open>roundD\<close> the rounded value. A result whose rounded magnitude reaches \<open>2 ^ 1024\<close>
  overflows to an infinity.
\<close>

definition rne :: "real \<Rightarrow> int" where
  "rne y = (let f = \<lfloor>y\<rfloor>; r = y - of_int f
            in if r < 1 / 2 then f else if 1 / 2 < r then f + 1
               else if even f then f else f + 1)"

definition expo :: "real \<Rightarrow> int" where
  "expo x = max \<lfloor>log 2 \<bar>x\<bar>\<rfloor> (- 1022)"

definition ulp :: "real \<Rightarrow> real" where
  "ulp x = 2 powi (expo x - 52)"

definition roundD :: "real \<Rightarrow> real" where
  "roundD x = sgn x * (of_int (rne (\<bar>x\<bar> / ulp x)) * ulp x)"

datatype jsnum = Num real | PInf | NInf | NaN

definition overflowBound :: real where
  "overflowBound = 2 ^ 1024"

definition fl :: "real \<Rightarrow> jsnum" where
  "fl x = (let r = roundD x
           in if overflowBound \<le> r then PInf
              else if r \<le> - overflowBound then NInf else Num r)"

text \<open>
  The operators \<open>+\<close>, \<open>-\<close>, \<open>*\<close>, \<open>/\<close>, \<open>Math.sqrt\<close>, \<open>>\<close> and \<open>=== 0\<close> on
  these values. \<open>Math.sqrt\<close> is the correctly rounded square root of IEEE 754. The
  sign of a zero is not modelled: division by zero takes the zero as positive, and the
  only zero divisor in the code is the length of an empty array.
\<close>

fun jneg :: "jsnum \<Rightarrow> jsnum" where
  "jneg (Num x) = Num (- x)"
| "jneg PInf = NInf"
| "jneg NInf = PInf"
| "jneg NaN = NaN"

fun jadd :: "jsnum \<Rightarrow> jsnum \<Rightarrow> jsnum" where
  "jadd (Num x) (Num y) = fl (x + y)"
| "jadd NaN b = NaN"
| "jadd a NaN = NaN"
| "jadd PInf NInf = NaN"
| "jadd NInf PInf = NaN"
| "jadd PInf b = PInf"
| "jadd NInf b = NInf"
| "jadd (Num x) b = b"

definition jsub :: "jsnum \<Rightarrow> jsnum \<Rightarrow> jsnum" where
  "jsub a b = jadd a (jneg b)"

fun jsign :: "jsnum \<Rightarrow> real" where
  "jsign (Num x) = sgn x"
| "jsign PInf = 1"
| "jsign NInf = - 1"
| "jsign NaN = 0"

definition signedInf :: "real \<Rightarrow> jsnum" where
  "signedInf s = (if 0 < s then PInf else NInf)"

fun jmul :: "jsnum \<Rightarrow> jsnum \<Rightarrow> jsnum" where
  "jmul (Num x) (Num y) = fl (x * y)"
| "jmul NaN b = NaN"
| "jmul a NaN = NaN"
| "jmul a b = (if jsign a * jsign b = 0 then NaN else signedInf (jsign a * jsign b))"

fun jdiv :: "jsnum \<Rightarrow> jsnum \<Rightarrow> jsnum" where
  "jdiv (Num x) (Num y) =
     (if y = 0 then (if x = 0 then NaN else signedInf (sgn x)) else fl (x / y))"
| "jdiv NaN b = NaN"
| "jdiv a NaN = NaN"
| "jdiv (Num x) b = Num 0"
| "jdiv a (Num y) = signedInf (jsign a * (if y < 0 then - 1 else 1))"
| "jdiv a b = NaN"

fun jsqrt :: "jsnum \<Rightarrow> jsnum" where
  "jsqrt (Num x) = (if x < 0 then NaN else fl (sqrt x))"
| "jsqrt PInf = PInf"
| "jsqrt NInf = NaN"
| "jsqrt NaN = NaN"

fun js_gt :: "jsnum \<Rightarrow> jsnum \<Rightarrow> bool" where
  "js_gt (Num x) (Num y) = (y < x)"
| "js_gt NaN b = False"
| "js_gt a NaN = False"
| "js_gt PInf PInf = False"
| "js_gt PInf b = True"
| "js_gt NInf b = False"
| "js_gt (Num x) NInf = True"
| "js_gt (Num x) PInf = False"

definition js_is_zero :: "jsnum \<Rightarrow> bool" where
  "js_is_zero a = (a = Num 0)"

subsection \<open>Constants of the constructor\<close>

definition PHI :: real where
  "PHI = (1 + sqrt 5) / 2"

definition PHI_INV :: real where
  "PHI_INV = 1 / PHI"

text \<open>
  \<open>this.THRESHOLD = 0.01\<close> is the double nearest to \<open>1 / 100\<close>; \<open>matchThreshold\<close> is
  the value of \<open>1 - this.THRESHOLD\<close> in the test of \<open>findSimilarSegments\<close>.
\<close>

definition THRESHOLD :: real where
  "THRESHOLD = roundD (1 / 100)"

definition matchThreshold :: jsnum where
  "matchThreshold = jsub (Num 1) (Num THRESHOLD)"


subsection \<open>Data model\<close>

record segment =
  seg_data :: "real list"
  seg_position :: nat

record match =
  m_index :: nat
  m_position :: nat
  m_correlation :: jsnum

record similarity =
  masterIndex :: nat
  masterPosition :: nat
  masterData :: "real list"
  matches :: "match list"

record pattern =
  scale :: nat
  segmentSize :: nat
  patterns :: "similarity list"
  compressionRatio :: real

record header =
  h_phi :: real
  h_scale :: nat
  h_segmentSize :: nat
  originalLength :: nat

record master_segment =
  ms_position :: nat
  ms_data :: "real list"

record reference =
  r_masterIndex :: nat
  r_position :: nat
  r_correlation :: jsnum

record residual_entry =
  res_position :: nat
  res_value :: real

record encoded_structure =
  header :: header
  masterSegments :: "master_segment list"
  references :: "reference list"
  residual :: "residual_entry list"

datatype encode_result =
    is_failure: EncFailure (message: string) (originalSize: nat) (compressedSize: nat)
      (e_compressionRatio: real)
  | success: EncSuccess (encoded: encoded_structure) (originalSize: nat) (compressedSize: nat)
      (e_compressionRatio: real) (e_patterns: nat) (goldenRatioScale: nat)

datatype error = Error string

subsection \<open>segmentData\<close>

text \<open>
  The step of the \<open>for\<close> loop, \<open>Math.floor(segmentSize * this.PHI_INV)\<close>, and the
  loop itself. The loop test \<open>i < data.length - segmentSize + 1\<close> is signed in the
  source. The loop has no exit when the step is \<open>0\<close> and the test holds, hence the
  option result.
\<close>

definition stepOf :: "nat \<Rightarrow> nat" where
  "stepOf segSize = nat \<lfloor>real segSize * PHI_INV\<rfloor>"

partial_function (option) segmentLoop ::
  "real list \<Rightarrow> nat \<Rightarrow> nat \<Rightarrow> segment list \<Rightarrow> segment list option" where
  "segmentLoop data segSize i segments =
     (if int i < int (length data) - int segSize + 1
      then segmentLoop data segSize (i + stepOf segSize)
             (segments @ [\<lparr>seg_data = take segSize (drop i data), seg_position = i\<rparr>])
      else Some segments)"

definition segmentData :: "real list \<Rightarrow> nat \<Rightarrow> segment list option" where
  "segmentData data segSize = segmentLoop data segSize 0 []"

subsection \<open>calculateCorrelation and findSimilarSegments\<close>

text \<open>
  The five \<open>reduce\<close> calls are left folds from \<open>0\<close>; every operation is the
  JavaScript one. No case is singled out: on two empty vectors the quotient
  \<open>sum1 * sum2 / n\<close> is \<open>0 / 0\<close>, on a negative radicand \<open>Math.sqrt\<close> gives \<open>NaN\<close>.
\<close>

definition calculateCorrelation :: "real list \<Rightarrow> real list \<Rightarrow> jsnum" where
  "calculateCorrelation arr1 arr2 =
     (if length arr1 \<noteq> length arr2 then Num 0
      else
        let n = Num (real (length arr1));
            sum1 = foldl (\<lambda>a b. jadd a (Num b)) (Num 0) arr1;
            sum2 = foldl (\<lambda>a b. jadd a (Num b)) (Num 0) arr2;
            sum1Sq = foldl (\<lambda>a b. jadd a (jmul (Num b) (Num b))) (Num 0) arr1;
            sum2Sq = foldl (\<lambda>a b. jadd a (jmul (Num b) (Num b))) (Num 0) arr2;
            pSum = foldl (\<lambda>s (a, b). jadd s (jmul (Num a) (Num b))) (Num 0) (zip arr1 arr2);
            num = jsub pSum (jdiv (jmul sum1 sum2) n);
            den = jsqrt (jmul (jsub sum1Sq (jdiv (jmul sum1 sum1) n))
                              (jsub sum2Sq (jdiv (jmul sum2 sum2) n)))
        in if js_is_zero den then Num 0 else jdiv num den)"

definition matchesOf :: "segment list \<Rightarrow> nat \<Rightarrow> match list" where
  "matchesOf segments i =
     concat (map (\<lambda>j.
        let correlation = calculateCorrelation (seg_data (segments ! i)) (seg_data (segments ! j))
        in if js_gt correlation matchThreshold
           then [\<lparr>m_index = j, m_position = seg_position (segments ! j),
                  m_correlation = correlation\<rparr>]
           else [])
       [i + 1 ..< length segments])"

definition findSimilarSegments :: "segment list \<Rightarrow> similarity list" where
  "findSimilarSegments segments =
     concat (map (\<lambda>i.
        let ms = matchesOf segments i
        in if length ms > 0
           then [\<lparr>masterIndex = i, masterPosition = seg_position (segments ! i),
                  masterData = seg_data (segments ! i), matches = ms\<rparr>]
           else [])
       [0 ..< length segments])"

subsection \<open>calculateCompressionRatio\<close>

definition ratioStep :: "int \<Rightarrow> int \<times> int \<Rightarrow> similarity \<Rightarrow> int \<times> int" where
  "ratioStep segSize acc sim =
     (let originalSz = segSize * (1 + int (length (matches sim)));
          compressedSz = segSize + int (length (matches sim)) * 8
      in (fst acc + (originalSz - compressedSz), snd acc + originalSz))"

definition calculateCompressionRatio :: "similarity list \<Rightarrow> int \<Rightarrow> real" where
  "calculateCompressionRatio similarities segSize =
     (let totals = foldl (ratioStep segSize) (0, 0) similarities;
          totalSaved = fst totals;
          totalOriginal = snd totals
      in if totalOriginal > 0 then real_of_int totalSaved / real_of_int totalOriginal else 0)"

subsection \<open>detectFractalPatterns\<close>

text \<open>
  The scale loop runs \<open>scale = 1, ..., 8\<close> and breaks at the first segment size below
  \<open>4\<close>. \<open>Array.prototype.sort\<close> is stable; the comparator
  \<open>b.compressionRatio - a.compressionRatio\<close> orders by descending ratio.
\<close>

definition sizeAtScale :: "nat \<Rightarrow> nat \<Rightarrow> nat" where
  "sizeAtScale dataLength sc = nat \<lfloor>real dataLength * PHI_INV ^ sc\<rfloor>"

function detectLoop :: "real list \<Rightarrow> nat \<Rightarrow> pattern list \<Rightarrow> pattern list option" where
  "detectLoop data sc pats =
     (if sc \<le> 8 then
        let segSize = sizeAtScale (length data) sc
        in if segSize < 4 then Some pats
           else (case segmentData data segSize of
                   None \<Rightarrow> None
                 | Some segments \<Rightarrow>
                     let similarities = findSimilarSegments segments
                     in detectLoop data (sc + 1)
                          (if length similarities > 0
                           then pats @ [\<lparr>scale = sc, segmentSize = segSize,
                                   patterns = similarities,
                                   compressionRatio =
                                     calculateCompressionRatio similarities (int segSize)\<rparr>]
                           else pats))
      else Some pats)"
  by pat_completeness auto
termination
  by (relation "measure (\<lambda>(data, sc, pats). 9 - sc)") auto

declare detectLoop.simps [simp del]

definition detectFractalPatterns :: "real list \<Rightarrow> pattern list option" where
  "detectFractalPatterns data =
     map_option (sort_key (\<lambda>p. - compressionRatio p)) (detectLoop data 1 [])"

subsection \<open>createEncodedStructure, calculateEncodedSize and encode\<close>

text \<open>
  The two nested \<open>forEach\<close> loops thread the master list, the reference list and the
  set \<open>usedPositions\<close>. Only the starting offsets of masters and matches enter
  \<open>usedPositions\<close>.
\<close>

definition addMatch ::
  "nat \<Rightarrow> reference list \<times> nat set \<Rightarrow> match \<Rightarrow> reference list \<times> nat set" where
  "addMatch masterCount acc m =
     (fst acc @ [\<lparr>r_masterIndex = masterCount - 1, r_position = m_position m,
                  r_correlation = m_correlation m\<rparr>],
      insert (m_position m) (snd acc))"

definition addSimilarity ::
  "master_segment list \<times> reference list \<times> nat set \<Rightarrow> similarity
   \<Rightarrow> master_segment list \<times> reference list \<times> nat set" where
  "addSimilarity acc sim =
     (let masters = fst acc @ [\<lparr>ms_position = masterPosition sim, ms_data = masterData sim\<rparr>];
          used = insert (masterPosition sim) (snd (snd acc));
          refsUsed = foldl (addMatch (length masters)) (fst (snd acc), used) (matches sim)
      in (masters, refsUsed))"

definition createEncodedStructure :: "real list \<Rightarrow> pattern \<Rightarrow> encoded_structure" where
  "createEncodedStructure data pat =
     (let acc = foldl addSimilarity ([], [], {}) (patterns pat);
          usedPositions = snd (snd acc)
      in \<lparr>header = \<lparr>h_phi = PHI, h_scale = scale pat, h_segmentSize = segmentSize pat,
                      originalLength = length data\<rparr>,
          masterSegments = fst acc,
          references = fst (snd acc),
          residual = map (\<lambda>i. \<lparr>res_position = i, res_value = data ! i\<rparr>)
                       (filter (\<lambda>i. i \<notin> usedPositions) [0 ..< length data])\<rparr>)"

definition calculateEncodedSize :: "encoded_structure \<Rightarrow> nat" where
  "calculateEncodedSize st =
     32 + length (masterSegments st) * h_segmentSize (header st) * 4
        + length (references st) * 12
        + length (residual st) * 8"

definition encode :: "real list \<Rightarrow> encode_result option" where
  "encode data =
     (case detectFractalPatterns data of
        None \<Rightarrow> None
      | Some pats \<Rightarrow>
          if length pats = 0
          then Some (EncFailure ''No suitable fractal patterns found'' (length data) (length data) 0)
          else
            let bestPattern = pats ! 0;
                enc = createEncodedStructure data bestPattern
            in Some (EncSuccess enc (length data) (calculateEncodedSize enc)
                       (compressionRatio bestPattern) (length pats) (scale bestPattern)))"

subsection \<open>decode\<close>

text \<open>
  \<open>new Array(n)\<close> has \<open>n\<close> unset slots: a slot is \<open>None\<close> until it is written.
  Every write is guarded by \<open>< reconstructed.length\<close>, so the array never grows.
  For each master, in list order, the master's values are placed and then the
  references that carry this master's index; the residual values come last.
\<close>

definition placeSegment :: "nat \<Rightarrow> real list \<Rightarrow> real option list \<Rightarrow> real option list" where
  "placeSegment pos vals reconstructed =
     fold (\<lambda>i arr. if pos + i < length arr then arr[pos + i := Some (vals ! i)] else arr)
       [0 ..< length vals] reconstructed"

definition placeMaster ::
  "reference list \<Rightarrow> master_segment \<times> nat \<Rightarrow> real option list \<Rightarrow> real option list" where
  "placeMaster refs mk reconstructed =
     fold (\<lambda>ref arr. placeSegment (r_position ref) (ms_data (fst mk)) arr)
       (filter (\<lambda>ref. r_masterIndex ref = snd mk) refs)
       (placeSegment (ms_position (fst mk)) (ms_data (fst mk)) reconstructed)"

definition placeResidual :: "residual_entry \<Rightarrow> real option list \<Rightarrow> real option list" where
  "placeResidual res arr =
     (if res_position res < length arr then arr[res_position res := Some (res_value res)] else arr)"

definition decodeStructure :: "encoded_structure \<Rightarrow> real option list" where
  "decodeStructure st =
     fold placeResidual (residual st)
       (fold (placeMaster (references st))
          (zip (masterSegments st) [0 ..< length (masterSegments st)])
          (replicate (originalLength (header st)) None))"

definition decode :: "encode_result \<Rightarrow> error + real option list" where
  "decode encoded_result =
     (if \<not> success encoded_result then Inl (Error ''Cannot decode failed encoding'')
      else Inr (decodeStructure (encoded encoded_result)))"

subsection \<open>Reading an encoded structure\<close>

text \<open>
  The offsets a record reaches: a master segment covers its range, a reference covers
  the range of the master it points to, a residual record holds one offset.
\<close>

definition coveredByMaster :: "encoded_structure \<Rightarrow> nat \<Rightarrow> bool" where
  "coveredByMaster st off =
     (\<exists>m\<in>set (masterSegments st). ms_position m \<le> off \<and> off < ms_position m + length (ms_data m))"

definition coveredByReference :: "encoded_structure \<Rightarrow> nat \<Rightarrow> bool" where
  "coveredByReference st off =
     (\<exists>r\<in>set (references st). r_masterIndex r < length (masterSegments st) \<and>
        r_position r \<le> off \<and>
        off < r_position r + length (ms_data (masterSegments st ! r_masterIndex r)))"

definition isResidualOffset :: "encoded_structure \<Rightarrow> nat \<Rightarrow> bool" where
  "isResidualOffset st off = (\<exists>e\<in>set (residual st). res_position e = off)"

text \<open>
  A write is an offset and the values placed from there on. \<open>lastWriter\<close> gives the
  value of the last write of a list that covers an offset. \<open>decodeWrites\<close> lists the
  writes of \<open>decode\<close> in the order of its loops.
\<close>

type_synonym seg_write = "nat \<times> real list"

definition covers :: "seg_write \<Rightarrow> nat \<Rightarrow> bool" where
  "covers w off = (fst w \<le> off \<and> off < fst w + length (snd w))"

fun lastWriter :: "seg_write list \<Rightarrow> nat \<Rightarrow> real option" where
  "lastWriter [] off = None"
| "lastWriter (w # ws) off =
     (case lastWriter ws off of
        Some v \<Rightarrow> Some v
      | None \<Rightarrow> if covers w off then Some (snd w ! (off - fst w)) else None)"

definition residualWrites :: "encoded_structure \<Rightarrow> seg_write list" where
  "residualWrites st = map (\<lambda>e. (res_position e, [res_value e])) (residual st)"

definition masterWrites :: "reference list \<Rightarrow> master_segment \<times> nat \<Rightarrow> seg_write list" where
  "masterWrites refs mk =
     (ms_position (fst mk), ms_data (fst mk)) #
     map (\<lambda>r. (r_position r, ms_data (fst mk))) (filter (\<lambda>r. r_masterIndex r = snd mk) refs)"

definition decodeWrites :: "encoded_structure \<Rightarrow> seg_write list" where
  "decodeWrites st =
     concat (map (masterWrites (references st))
              (zip (masterSegments st) [0 ..< length (masterSegments st)]))
     @ residualWrites st"

definition applyWrites :: "seg_write list \<Rightarrow> real option list \<Rightarrow> real option list" where
  "applyWrites ws arr = fold (\<lambda>w. placeSegment (fst w) (snd w)) ws arr"

subsection \<open>The specification's reading, for comparison\<close>

text \<open>
  The ratio estimator as the specification words it: a cost of \<open>12\<close> units per
  reference. It is compared below with \<open>calculateCompressionRatio\<close>, the code.
\<close>

definition specCompressionRatio :: "similarity list \<Rightarrow> int \<Rightarrow> real" where
  "specCompressionRatio similarities segSize =
     (let totalSaved = sum_list (map (\<lambda>sim. segSize * (1 + int (length (matches sim)))
                               - (segSize + int (length (matches sim)) * 12)) similarities);
          totalOriginal = sum_list (map (\<lambda>sim. segSize * (1 + int (length (matches sim))))
                               similarities)
      in if similarities = [] then 0 else real_of_int totalSaved / real_of_int totalOriginal)"

text \<open>
  The decoder's writes as the specification words them: every master in list order,
  then every reference in list order (each copying its master's values), then every
  residual value.
\<close>

definition threePhaseWrites :: "encoded_structure \<Rightarrow> seg_write list" where
  "threePhaseWrites st =
     map (\<lambda>m. (ms_position m, ms_data m)) (masterSegments st)
     @ concat (map (\<lambda>r. if r_masterIndex r < length (masterSegments st)
                         then [(r_position r, ms_data (masterSegments st ! r_masterIndex r))]
                         else [])
                (references st))
     @ residualWrites st"

subsection \<open>Auxiliary notions\<close>

text \<open>
  What the segmenter guarantees of a segment, the invariant of the encoder's
  accumulator, what the pattern selector guarantees of a pattern, the values \<open>num\<close>
  and the radicand inside \<open>calculateCorrelation\<close>, and the clusters the pipeline finds at
  a scale.
\<close>

definition segmentOK :: "real list \<Rightarrow> nat \<Rightarrow> segment \<Rightarrow> bool" where
  "segmentOK d S s = (seg_position s + S \<le> length d \<and> seg_data s = take S (drop (seg_position s) d))"

definition accInv :: "master_segment list \<times> reference list \<times> nat set \<Rightarrow> bool" where
  "accInv acc =
     ((\<forall>r\<in>set (fst (snd acc)). r_masterIndex r < length (fst acc)) \<and>
      snd (snd acc) = ms_position ` set (fst acc) \<union> r_position ` set (fst (snd acc)))"

definition patternOK :: "real list \<Rightarrow> pattern \<Rightarrow> bool" where
  "patternOK d p =
     (4 \<le> segmentSize p \<and> patterns p \<noteq> [] \<and>
      (\<exists>segs. segmentData d (segmentSize p) = Some segs \<and> patterns p = findSimilarSegments segs))"

definition corrNumerator :: "real list \<Rightarrow> real list \<Rightarrow> jsnum" where
  "corrNumerator arr1 arr2 =
     jsub (foldl (\<lambda>s (a, b). jadd s (jmul (Num a) (Num b))) (Num 0) (zip arr1 arr2))
       (jdiv (jmul (foldl (\<lambda>a b. jadd a (Num b)) (Num 0) arr1)
                   (foldl (\<lambda>a b. jadd a (Num b)) (Num 0) arr2))
             (Num (real (length arr1))))"

definition corrRadicand :: "real list \<Rightarrow> real list \<Rightarrow> jsnum" where
  "corrRadicand arr1 arr2 =
     jmul (jsub (foldl (\<lambda>a b. jadd a (jmul (Num b) (Num b))) (Num 0) arr1)
                (jdiv (jmul (foldl (\<lambda>a b. jadd a (Num b)) (Num 0) arr1)
                            (foldl (\<lambda>a b. jadd a (Num b)) (Num 0) arr1))
                      (Num (real (length arr1)))))
          (jsub (foldl (\<lambda>a b. jadd a (jmul (Num b) (Num b))) (Num 0) arr2)
                (jdiv (jmul (foldl (\<lambda>a b. jadd a (Num b)) (Num 0) arr2)
                            (foldl (\<lambda>a b. jadd a (Num b)) (Num 0) arr2))
                      (Num (real (length arr1)))))"

definition clustersAtScale :: "real list \<Rightarrow> nat \<Rightarrow> similarity list option" where
  "clustersAtScale d sc =
     map_option findSimilarSegments (segmentData d (sizeAtScale (length d) sc))"

definition noClusterAtAnyScale :: "real list \<Rightarrow> bool" where
  "noClusterAtAnyScale d =
     (\<forall>sc\<in>{1 .. 8}. 4 \<le> sizeAtScale (length d) sc \<longrightarrow> clustersAtScale d sc = Some [])"

subsection \<open>Concrete inputs\<close>

text \<open>A cluster with one match, as the matcher builds it for two segments of size 4.\<close>

definition oneMatchCluster :: similarity where
  "oneMatchCluster =
     \<lparr>masterIndex = 0, masterPosition = 0, masterData = [0, 1, 2, 3],
      matches = [\<lparr>m_index = 1, m_position = 2, m_correlation = Num 1\<rparr>]\<rparr>"

text \<open>
  An input of 11 samples. At scale 2 (segment size 4, step 2) the segment at offset 4
  is twice the segment at offset 0 and the segment at offset 6 is twice the segment at
  offset 2, so the matcher finds two clusters whose ranges overlap. The segments, the
  selected pattern, the encoded structure and the encode result are those the code
  computes (lemma \<open>encode_overlap\<close> below).
\<close>

definition overlapData :: "real list" where
  "overlapData = [1, 3, 2, 5, 2, 6, 4, 10, 4, 12, 0]"

definition overlapSegments :: "segment list" where
  "overlapSegments =
     [\<lparr>seg_data = [1, 3, 2, 5], seg_position = 0\<rparr>,
      \<lparr>seg_data = [2, 5, 2, 6], seg_position = 2\<rparr>,
      \<lparr>seg_data = [2, 6, 4, 10], seg_position = 4\<rparr>,
      \<lparr>seg_data = [4, 10, 4, 12], seg_position = 6\<rparr>]"

definition overlapPattern :: pattern where
  "overlapPattern =
     \<lparr>scale = 2, segmentSize = 4, patterns = findSimilarSegments overlapSegments,
      compressionRatio = - 1 / 2\<rparr>"

definition overlapStructure :: encoded_structure where
  "overlapStructure =
     \<lparr>header = \<lparr>h_phi = PHI, h_scale = 2, h_segmentSize = 4, originalLength = 11\<rparr>,
      masterSegments = [\<lparr>ms_position = 0, ms_data = [1, 3, 2, 5]\<rparr>,
                        \<lparr>ms_position = 2, ms_data = [2, 5, 2, 6]\<rparr>],
      references = [\<lparr>r_masterIndex = 0, r_position = 4, r_correlation = Num 1\<rparr>,
                    \<lparr>r_masterIndex = 1, r_position = 6, r_correlation = Num 1\<rparr>],
      residual = [\<lparr>res_position = 1, res_value = 3\<rparr>, \<lparr>res_position = 3, res_value = 5\<rparr>,
                  \<lparr>res_position = 5, res_value = 6\<rparr>, \<lparr>res_position = 7, res_value = 10\<rparr>,
                  \<lparr>res_position = 8, res_value = 4\<rparr>, \<lparr>res_position = 9, res_value = 12\<rparr>,
                  \<lparr>res_position = 10, res_value = 0\<rparr>]\<rparr>"

definition overlapResult :: encode_result where
  "overlapResult = EncSuccess overlapStructure 11 144 (- 1 / 2) 1 2"

text \<open>An input of 7 samples in which no two segments correlate.\<close>

definition noPatternData :: "real list" where
  "noPatternData = [3, 1, 4, 1, 5, 9, 2]"



section \<open>Properties\<close>

subsection \<open>Rounding to doubles\<close>

lemma rne_of_int [simp]: "rne (of_int k) = k"
  by (simp add: rne_def)

lemma rne_numeral [simp]: "rne (numeral n) = numeral n" "rne 0 = 0" "rne 1 = 1"
  using rne_of_int[of "numeral n"] rne_of_int[of 0] rne_of_int[of 1] by simp_all

lemma powr_powi2: "2 powr of_int k = (2::real) powi k"
  by (simp add: powr_real_of_int')

lemma rne_bounds: "y - 1 / 2 \<le> of_int (rne y)" "of_int (rne y) \<le> y + 1 / 2"
  unfolding rne_def Let_def by (auto; linarith)+

lemma rne_unique:
  assumes "\<bar>y - of_int m\<bar> < 1 / 2"
  shows "rne y = m"
proof (cases "of_int m \<le> y")
  case True
  with assms have "\<lfloor>y\<rfloor> = m" by (intro floor_unique) auto
  with assms True show ?thesis by (auto simp: rne_def Let_def)
next
  case False
  with assms have "\<lfloor>y\<rfloor> = m - 1" by (intro floor_unique) auto
  with assms False show ?thesis by (auto simp: rne_def Let_def)
qed

lemma rne_mono:
  assumes "x \<le> y"
  shows "rne x \<le> rne y"
proof (rule ccontr)
  assume "\<not> rne x \<le> rne y"
  then have gt: "rne y + 1 \<le> rne x" by simp
  then have "of_int (rne y) + 1 \<le> (of_int (rne x) :: real)" by linarith
  with rne_bounds(2)[of x] rne_bounds(1)[of y] assms have "x = y" by linarith
  with gt show False by simp
qed

lemma floor_log2_bounds:
  assumes "x \<noteq> 0"
  shows "2 powi \<lfloor>log 2 \<bar>x\<bar>\<rfloor> \<le> \<bar>x\<bar>" "\<bar>x\<bar> < 2 powi (\<lfloor>log 2 \<bar>x\<bar>\<rfloor> + 1)"
proof -
  from assms have pos: "0 < \<bar>x\<bar>" by simp
  have one: "(1::real) < 2" by simp
  from floor_log_eq_powr_iff[OF pos one, of "\<lfloor>log 2 \<bar>x\<bar>\<rfloor>"]
  have "2 powr of_int \<lfloor>log 2 \<bar>x\<bar>\<rfloor> \<le> \<bar>x\<bar> \<and> \<bar>x\<bar> < 2 powr of_int (\<lfloor>log 2 \<bar>x\<bar>\<rfloor> + 1)"
    by blast
  then show "2 powi \<lfloor>log 2 \<bar>x\<bar>\<rfloor> \<le> \<bar>x\<bar>" "\<bar>x\<bar> < 2 powi (\<lfloor>log 2 \<bar>x\<bar>\<rfloor> + 1)"
    unfolding powr_powi2 by blast+
qed

lemma floor_log2_unique:
  assumes "2 powi e \<le> \<bar>x\<bar>" and "\<bar>x\<bar> < 2 powi (e + 1)"
  shows "\<lfloor>log 2 \<bar>x\<bar>\<rfloor> = e"
proof -
  have "0 < (2::real) powi e" by (simp add: zero_less_power_int)
  with assms(1) have pos: "0 < \<bar>x\<bar>" by linarith
  from assms have "2 powr of_int e \<le> \<bar>x\<bar> \<and> \<bar>x\<bar> < 2 powr of_int (e + 1)"
    unfolding powr_powi2 by blast
  moreover have one: "(1::real) < 2" by simp
  ultimately show ?thesis using floor_log_eq_powr_iff[OF pos one, of e] by blast
qed

lemma ulp_pos: "0 < ulp x"
  by (simp add: ulp_def zero_less_power_int)

lemma ulp_eval:
  assumes "2 powi e \<le> \<bar>x\<bar>" and "\<bar>x\<bar> < 2 powi (e + 1)" and "- 1022 \<le> e"
  shows "ulp x = 2 powi (e - 52)"
  using floor_log2_unique[OF assms(1,2)] assms(3) by (simp add: ulp_def expo_def)

lemma roundD_eval:
  assumes "2 powi e \<le> \<bar>x\<bar>" and "\<bar>x\<bar> < 2 powi (e + 1)" and "- 1022 \<le> e"
  shows "roundD x = sgn x * (of_int (rne (\<bar>x\<bar> / 2 powi (e - 52))) * 2 powi (e - 52))"
  by (simp add: roundD_def ulp_eval[OF assms])

lemma roundD_zero [simp]: "roundD 0 = 0"
  by (simp add: roundD_def)

lemma roundD_minus: "roundD (- x) = - roundD x"
  by (simp add: roundD_def ulp_def expo_def)

lemma rne_nonneg: "0 \<le> y \<Longrightarrow> 0 \<le> rne y"
  using rne_mono[of 0 y] by simp

lemma roundD_nonneg: "0 \<le> x \<Longrightarrow> 0 \<le> roundD x"
  using ulp_pos[of x] by (simp add: roundD_def sgn_if rne_nonneg)

lemma roundD_pos_eq: "0 < x \<Longrightarrow> roundD x = of_int (rne (x / ulp x)) * ulp x"
  by (simp add: roundD_def)

lemma expo_mono:
  assumes "0 < x" and "x \<le> y"
  shows "expo x \<le> expo y"
proof -
  from assms have "log 2 \<bar>x\<bar> \<le> log 2 \<bar>y\<bar>" by simp
  then have "\<lfloor>log 2 \<bar>x\<bar>\<rfloor> \<le> \<lfloor>log 2 \<bar>y\<bar>\<rfloor>" by (rule floor_mono)
  then show ?thesis by (simp add: expo_def)
qed

lemma ulp_scale:
  "2 ^ 53 * ulp x = 2 powi (expo x + 1)" "2 ^ 52 * ulp x = 2 powi expo x"
proof -
  have "(2::real) powi (expo x + 1) = 2 powi (53 + (expo x - 52))"
    by (rule arg_cong[where f = "power_int 2"]) simp
  also have "\<dots> = 2 powi 53 * 2 powi (expo x - 52)" by (rule power_int_add) simp
  finally show "2 ^ 53 * ulp x = 2 powi (expo x + 1)" by (simp add: ulp_def)
  have "(2::real) powi expo x = 2 powi (52 + (expo x - 52))"
    by (rule arg_cong[where f = "power_int 2"]) simp
  also have "\<dots> = 2 powi 52 * 2 powi (expo x - 52)" by (rule power_int_add) simp
  finally show "2 ^ 52 * ulp x = 2 powi expo x" by (simp add: ulp_def)
qed

lemma roundD_upper:
  assumes "0 < x"
  shows "roundD x \<le> 2 powi (expo x + 1)"
proof -
  let ?u = "ulp x"
  have "x < 2 powi (\<lfloor>log 2 \<bar>x\<bar>\<rfloor> + 1)"
    using floor_log2_bounds(2)[of x] assms by simp
  also have "\<dots> \<le> 2 powi (expo x + 1)"
    by (intro power_int_increasing) (simp_all add: expo_def)
  finally have "x / ?u \<le> 2 powi (expo x + 1) / ?u"
    using ulp_pos[of x] by (simp add: divide_right_mono)
  also have "2 powi (expo x + 1) / ?u = (2::real) ^ 53"
    using ulp_scale(1)[of x] ulp_pos[of x] by (simp add: field_simps)
  also have "(2::real) ^ 53 = of_int (2 ^ 53)" by simp
  finally have "rne (x / ?u) \<le> rne (of_int (2 ^ 53))" by (rule rne_mono)
  then have "rne (x / ?u) \<le> 2 ^ 53" by simp
  then have "of_int (rne (x / ?u)) \<le> (2::real) ^ 53"
    by (metis of_int_le_iff of_int_numeral of_int_power)
  then have "of_int (rne (x / ?u)) * ?u \<le> 2 ^ 53 * ?u"
    using ulp_pos[of x] by (simp add: mult_right_mono)
  also have "2 ^ 53 * ?u = 2 powi (expo x + 1)"
    by (rule ulp_scale)
  finally show ?thesis using assms by (simp add: roundD_pos_eq)
qed

lemma roundD_lower:
  assumes "0 < x" and "- 1022 < expo x"
  shows "2 powi expo x \<le> roundD x"
proof -
  let ?u = "ulp x"
  from assms(2) have e: "expo x = \<lfloor>log 2 \<bar>x\<bar>\<rfloor>" by (simp add: expo_def max_def split: if_splits)
  have "2 powi expo x \<le> x"
    unfolding e using floor_log2_bounds(1)[of x] assms(1) by simp
  then have "2 powi expo x / ?u \<le> x / ?u"
    using ulp_pos[of x] by (simp add: divide_right_mono)
  moreover have "2 powi expo x / ?u = (2::real) ^ 52"
    using ulp_scale(2)[of x] ulp_pos[of x] by (simp add: field_simps)
  moreover have "(2::real) ^ 52 = of_int (2 ^ 52)" by simp
  ultimately have "rne (of_int (2 ^ 52)) \<le> rne (x / ?u)"
    by (intro rne_mono) simp
  then have "2 ^ 52 \<le> rne (x / ?u)" by simp
  then have "(2::real) ^ 52 \<le> of_int (rne (x / ?u))"
    by (metis of_int_le_iff of_int_numeral of_int_power)
  then have "2 ^ 52 * ?u \<le> of_int (rne (x / ?u)) * ?u"
    using ulp_pos[of x] by (simp add: mult_right_mono)
  moreover have "2 ^ 52 * ?u = 2 powi expo x"
    by (rule ulp_scale)
  ultimately show ?thesis using assms(1) by (simp add: roundD_pos_eq)
qed

lemma roundD_mono_pos:
  assumes "0 < x" and "x \<le> y"
  shows "roundD x \<le> roundD y"
proof (cases "expo x = expo y")
  case True
  then have u: "ulp x = ulp y" by (simp add: ulp_def)
  have "x / ulp y \<le> y / ulp y"
    using assms ulp_pos[of y] by (simp add: divide_right_mono)
  then have "rne (x / ulp y) \<le> rne (y / ulp y)" by (rule rne_mono)
  then have "of_int (rne (x / ulp y)) * ulp y \<le> of_int (rne (y / ulp y)) * ulp y"
    using ulp_pos[of y] by (simp add: mult_right_mono)
  with assms u show ?thesis by (simp add: roundD_pos_eq)
next
  case False
  with expo_mono[OF assms] have lt: "expo x < expo y" by simp
  have "- 1022 \<le> expo x" by (simp add: expo_def)
  with lt have big: "- 1022 < expo y" by simp
  from assms have y: "0 < y" by simp
  have "roundD x \<le> 2 powi (expo x + 1)" by (rule roundD_upper[OF assms(1)])
  also have "\<dots> \<le> 2 powi expo y"
    using lt by (intro power_int_increasing) simp_all
  also have "\<dots> \<le> roundD y" by (rule roundD_lower[OF y big])
  finally show ?thesis .
qed

lemma roundD_mono:
  assumes "x \<le> y"
  shows "roundD x \<le> roundD y"
proof -
  consider (pos) "0 < x" | (mixed) "x \<le> 0" "0 \<le> y" | (neg) "y < 0" using assms by linarith
  then show ?thesis
  proof cases
    case pos
    then show ?thesis using assms by (rule roundD_mono_pos)
  next
    case mixed
    from roundD_nonneg[of "- x"] mixed(1) have "roundD x \<le> 0" by (simp add: roundD_minus)
    with roundD_nonneg[OF mixed(2)] show ?thesis by simp
  next
    case neg
    with assms have "0 < - y" "- y \<le> - x" by simp_all
    from roundD_mono_pos[OF this] show ?thesis by (simp add: roundD_minus)
  qed
qed

lemma power_int_less_cancel:
  assumes "(2::real) powi a < 2 powi b"
  shows "a < b"
proof (rule ccontr)
  assume "\<not> a < b"
  then have "b \<le> a" by simp
  then have "(2::real) powi b \<le> 2 powi a" by (intro power_int_increasing) simp_all
  with assms show False by simp
qed

lemma roundD_exact:
  assumes k: "\<bar>k\<bar> < 2 ^ 53" and j: "j \<le> 1074"
  shows "roundD (of_int k / 2 ^ j) = of_int k / 2 ^ j"
proof (cases "k = 0")
  case True
  then show ?thesis by simp
next
  case False
  define x :: real where "x = of_int k / 2 ^ j"
  define e where "e = expo x"
  from False have x0: "x \<noteq> 0" by (simp add: x_def)
  have absx: "\<bar>x\<bar> = of_int \<bar>k\<bar> / 2 ^ j" by (simp add: x_def abs_divide del: of_int_abs)
  have "of_int \<bar>k\<bar> < (2::real) ^ 53"
    using k by (metis of_int_less_iff of_int_numeral of_int_power)
  then have "\<bar>x\<bar> < 2 ^ 53 / 2 ^ j" unfolding absx by (simp add: divide_strict_right_mono)
  also have "(2::real) ^ 53 / 2 ^ j = 2 powi (53 - int j)"
    by (simp add: power_int_diff)
  finally have up: "\<bar>x\<bar> < 2 powi (53 - int j)" .
  from floor_log2_bounds(1)[OF x0] up have "(2::real) powi \<lfloor>log 2 \<bar>x\<bar>\<rfloor> < 2 powi (53 - int j)"
    by linarith
  then have "\<lfloor>log 2 \<bar>x\<bar>\<rfloor> < 53 - int j" by (rule power_int_less_cancel)
  with j have e: "e \<le> 52 - int j" by (simp add: e_def expo_def)
  define n where "n = nat (52 - int j - e)"
  from e have n: "int n = 52 - int j - e" by (simp add: n_def)
  have "(2::real) ^ n * 2 powi (e - 52) = 2 powi (int n) * 2 powi (e - 52)" by simp
  also have "\<dots> = 2 powi (int n + (e - 52))" by (rule power_int_add [symmetric]) simp
  also have "int n + (e - 52) = - int j" using n by simp
  also have "(2::real) powi (- int j) = 1 / 2 ^ j" by (simp add: power_int_minus_divide)
  finally have scale: "(2::real) ^ n * ulp x = 1 / 2 ^ j" by (simp add: ulp_def e_def)
  have "\<bar>x\<bar> / ulp x = of_int \<bar>k\<bar> * (1 / 2 ^ j) / ulp x" by (simp add: absx)
  also have "\<dots> = of_int \<bar>k\<bar> * 2 ^ n"
    unfolding scale [symmetric] using ulp_pos[of x] by simp
  also have "\<dots> = of_int (\<bar>k\<bar> * 2 ^ n)" by simp
  finally have "rne (\<bar>x\<bar> / ulp x) = \<bar>k\<bar> * 2 ^ n" by (simp only: rne_of_int)
  then have "roundD x = sgn x * (of_int (\<bar>k\<bar> * 2 ^ n) * ulp x)" by (simp add: roundD_def)
  also have "of_int (\<bar>k\<bar> * 2 ^ n) * ulp x = of_int \<bar>k\<bar> * (2 ^ n * ulp x)" by simp
  also have "\<dots> = \<bar>x\<bar>" unfolding scale absx by simp
  also have "sgn x * \<bar>x\<bar> = x" by (simp add: sgn_if)
  finally show ?thesis by (simp add: x_def)
qed

lemma roundD_int: "\<bar>k\<bar> < 2 ^ 53 \<Longrightarrow> roundD (of_int k) = of_int k"
  using roundD_exact[of k 0] by simp

lemma roundD_eval_pos:
  assumes "0 < x" and "2 powi e \<le> x" and "x < 2 powi (e + 1)" and "- 1022 \<le> e"
    and "\<bar>x / 2 powi (e - 52) - of_int m\<bar> < 1 / 2"
  shows "roundD x = of_int m * 2 powi (e - 52)"
proof -
  from assms(1-3) have "2 powi e \<le> \<bar>x\<bar>" "\<bar>x\<bar> < 2 powi (e + 1)" by simp_all
  from roundD_eval[OF this assms(4)] assms(1) rne_unique[OF assms(5)]
  show ?thesis by simp
qed

lemma roundD_63_64: "roundD (63 / 64) = 63 / 64"
  using roundD_exact[of 63 6] by simp

lemma overflowBound_big: "2 ^ 53 < overflowBound"
  unfolding overflowBound_def by (rule power_strict_increasing) simp_all

lemma fl_finite: "\<bar>roundD x\<bar> \<le> 2 ^ 53 \<Longrightarrow> fl x = Num (roundD x)"
  using overflowBound_big by (auto simp: fl_def Let_def)

lemma fl_exact:
  assumes "\<bar>k\<bar> < 2 ^ 53" and "j \<le> 1074"
  shows "fl (of_int k / 2 ^ j) = Num (of_int k / 2 ^ j)"
proof -
  have "of_int \<bar>k\<bar> < (2::real) ^ 53"
    using assms(1) by (metis of_int_less_iff of_int_numeral of_int_power)
  then have k: "\<bar>of_int k :: real\<bar> < 2 ^ 53" by simp
  have "\<bar>of_int k / 2 ^ j :: real\<bar> = \<bar>of_int k\<bar> / 2 ^ j" by (simp add: abs_divide)
  also have "\<dots> \<le> \<bar>of_int k\<bar> / 1" by (intro divide_left_mono) simp_all
  finally have "\<bar>of_int k / 2 ^ j :: real\<bar> \<le> 2 ^ 53" using k by simp
  then show ?thesis
    using fl_finite[of "of_int k / 2 ^ j"] by (simp only: roundD_exact[OF assms])
qed

lemma fl_zero [simp]: "fl 0 = Num 0"
  using fl_finite[of 0] by simp

lemma fl_numeral [simp]:
  "numeral a < (2::int) ^ 53 \<Longrightarrow> fl (numeral a) = Num (numeral a)"
  using fl_exact[of "numeral a" 0] by simp

lemma fl_one [simp]: "fl 1 = Num 1"
  using fl_exact[of 1 0] by simp

lemma fl_minus: "fl (- x) = jneg (fl x)"
proof -
  have "0 < overflowBound" using overflowBound_big by (simp add: less_trans[of 0 "2 ^ 53"])
  then show ?thesis
    by (auto simp: fl_def Let_def roundD_minus)
qed

lemma fl_dyadic [simp]:
  "numeral a < (2::int) ^ 53 \<Longrightarrow> fl (numeral a / 2) = Num (numeral a / 2)"
  "numeral a < (2::int) ^ 53 \<Longrightarrow> fl (numeral a / 4) = Num (numeral a / 4)"
  "numeral a < (2::int) ^ 53 \<Longrightarrow> fl (numeral a / 8) = Num (numeral a / 8)"
  "numeral a < (2::int) ^ 53 \<Longrightarrow> fl (numeral a / 16) = Num (numeral a / 16)"
  using fl_exact[of "numeral a" 1] fl_exact[of "numeral a" 2] fl_exact[of "numeral a" 3]
    fl_exact[of "numeral a" 4] by simp_all

lemma fl_eval:
  assumes "0 < x" and "2 powi e \<le> x" and "x < 2 powi (e + 1)" and "- 1022 \<le> e"
    and "\<bar>x / 2 powi (e - 52) - of_int m\<bar> < 1 / 2"
    and "\<bar>of_int m * 2 powi (e - 52)\<bar> \<le> (2::real) ^ 53"
  shows "fl x = Num (of_int m * 2 powi (e - 52))"
proof -
  from assms(1-3) have "2 powi e \<le> \<bar>x\<bar>" "\<bar>x\<bar> < 2 powi (e + 1)" by simp_all
  from roundD_eval[OF this assms(4)] assms(1) rne_unique[OF assms(5)]
  have "roundD x = of_int m * 2 powi (e - 52)" by simp
  with assms(6) fl_finite[of x] show ?thesis by simp
qed

lemma overflowBound_wide: "2 ^ 64 < overflowBound"
  unfolding overflowBound_def by (rule power_strict_increasing) simp_all

lemma fl_eval_wide:
  assumes "0 < x" and "2 powi e \<le> x" and "x < 2 powi (e + 1)" and "- 1022 \<le> e"
    and "\<bar>x / 2 powi (e - 52) - of_int m\<bar> < 1 / 2"
    and "\<bar>of_int m * 2 powi (e - 52)\<bar> \<le> (2::real) ^ 64"
  shows "fl x = Num (of_int m * 2 powi (e - 52))"
proof -
  from roundD_eval_pos[OF assms(1-5)] have r: "roundD x = of_int m * 2 powi (e - 52)" .
  with assms(6) overflowBound_wide show ?thesis by (auto simp: fl_def Let_def)
qed

lemma fl_between:
  assumes "lo \<le> x" and "x \<le> hi" and "roundD lo = lo" and "roundD hi = hi"
    and "\<bar>lo\<bar> \<le> 2 ^ 53" and "\<bar>hi\<bar> \<le> 2 ^ 53"
  shows "\<exists>r. fl x = Num r \<and> lo \<le> r \<and> r \<le> hi"
proof -
  from roundD_mono[OF assms(1)] roundD_mono[OF assms(2)] assms(3,4)
  have b: "lo \<le> roundD x" "roundD x \<le> hi" by simp_all
  with assms(5,6) have "\<bar>roundD x\<bar> \<le> 2 ^ 53" by linarith
  from fl_finite[OF this] b show ?thesis by simp
qed

lemma fl_nonpos:
  assumes "x \<le> 0"
  shows "fl x = NInf \<or> (\<exists>r. fl x = Num r \<and> r \<le> 0)"
proof -
  from roundD_mono[OF assms] have "roundD x \<le> 0" by simp
  moreover have "0 < overflowBound"
    using overflowBound_big by (simp add: less_trans[of 0 "2 ^ 53"])
  ultimately show ?thesis by (auto simp: fl_def Let_def)
qed

subsection \<open>The golden ratio constants\<close>

lemma sqrt5_bounds: "223 / 100 < sqrt 5" "sqrt 5 < 224 / 100"
  by (rule real_less_rsqrt, simp add: power2_eq_square) (rule real_less_lsqrt, simp_all add: power2_eq_square)

lemma PHI_INV_eq: "PHI_INV = (sqrt 5 - 1) / 2"
proof -
  have "(sqrt 5 - 1) * (1 + sqrt 5) = 4"
    by (simp add: algebra_simps)
  moreover have "1 + sqrt 5 > 0"
    using sqrt5_bounds by simp
  ultimately show ?thesis
    unfolding PHI_INV_def PHI_def by (simp add: field_simps)
qed

lemma PHI_INV_bounds: "615 / 1000 < PHI_INV" "PHI_INV < 62 / 100"
  using sqrt5_bounds by (simp_all add: PHI_INV_eq)

lemma PHI_INV_square: "PHI_INV ^ 2 = 1 - PHI_INV"
  by (simp add: PHI_INV_eq power2_eq_square field_simps)

lemma PHI_INV_cube: "PHI_INV ^ 3 = 2 * PHI_INV - 1"
proof -
  have sq: "PHI_INV * PHI_INV = 1 - PHI_INV"
    using PHI_INV_square by (simp add: power2_eq_square)
  have "PHI_INV ^ 3 = PHI_INV * (PHI_INV * PHI_INV)"
    by (simp add: power3_eq_cube)
  also have "\<dots> = PHI_INV * (1 - PHI_INV)"
    by (simp only: sq)
  also have "\<dots> = PHI_INV - PHI_INV * PHI_INV"
    by (simp add: algebra_simps)
  also have "\<dots> = PHI_INV - (1 - PHI_INV)"
    by (simp only: sq)
  finally show ?thesis by simp
qed

lemma stepOf_1: "stepOf 1 = 0"
proof -
  have "\<lfloor>PHI_INV\<rfloor> = 0"
    using PHI_INV_bounds by (intro floor_unique) simp_all
  then show ?thesis by (simp add: stepOf_def)
qed

lemma stepOf_pos: assumes "2 \<le> S" shows "0 < stepOf S"
proof -
  have "1 \<le> 2 * PHI_INV" using PHI_INV_bounds by simp
  also have "\<dots> \<le> real S * PHI_INV"
    using assms PHI_INV_bounds by (intro mult_right_mono) simp_all
  finally have "1 \<le> \<lfloor>real S * PHI_INV\<rfloor>"
    by (simp add: le_floor_iff)
  then show ?thesis by (simp add: stepOf_def)
qed

lemma stepOf_4: "stepOf 4 = 2"
proof -
  have "\<lfloor>4 * PHI_INV\<rfloor> = 2"
    using PHI_INV_bounds by (intro floor_unique) simp_all
  then show ?thesis by (simp add: stepOf_def)
qed

lemma stepOf_6: "stepOf 6 = 3"
proof -
  have "\<lfloor>6 * PHI_INV\<rfloor> = 3"
    using PHI_INV_bounds by (intro floor_unique) simp_all
  then show ?thesis by (simp add: stepOf_def)
qed

lemma sizeAtScale_11:
  "sizeAtScale 11 1 = 6" "sizeAtScale 11 (Suc 0) = 6" "sizeAtScale 11 2 = 4" "sizeAtScale 11 3 = 2"
proof -
  have "\<lfloor>11 * PHI_INV\<rfloor> = 6"
    using PHI_INV_bounds by (intro floor_unique) simp_all
  then show "sizeAtScale 11 1 = 6" and "sizeAtScale 11 (Suc 0) = 6"
    by (simp_all add: sizeAtScale_def)
  have "\<lfloor>11 * (1 - PHI_INV)\<rfloor> = 4"
    using PHI_INV_bounds by (intro floor_unique) simp_all
  then show "sizeAtScale 11 2 = 4" by (simp add: sizeAtScale_def PHI_INV_square)
  have "\<lfloor>11 * (2 * PHI_INV - 1)\<rfloor> = 2"
    using PHI_INV_bounds by (intro floor_unique) simp_all
  then show "sizeAtScale 11 3 = 2" by (simp add: sizeAtScale_def PHI_INV_cube)
qed

lemma sizeAtScale_7_1: "sizeAtScale 7 1 = 4"
proof -
  have "\<lfloor>7 * PHI_INV\<rfloor> = 4"
    using PHI_INV_bounds by (intro floor_unique) simp_all
  then show ?thesis by (simp add: sizeAtScale_def)
qed

lemma sizeAtScale_7_small: assumes "2 \<le> sc" shows "sizeAtScale 7 sc < 4"
proof -
  have "PHI_INV ^ sc \<le> PHI_INV ^ 2"
    using assms PHI_INV_bounds by (intro power_decreasing) simp_all
  also have "\<dots> < 4 / 7"
    unfolding PHI_INV_square using PHI_INV_bounds by simp
  finally have "7 * PHI_INV ^ sc < 4" by simp
  then have "\<lfloor>7 * PHI_INV ^ sc\<rfloor> < 4" by (simp add: floor_less_iff)
  then have "nat \<lfloor>7 * PHI_INV ^ sc\<rfloor> < 4" by linarith
  then show ?thesis by (simp add: sizeAtScale_def)
qed



lemma sizeAtScale_antimono:
  assumes "sc \<le> sc'"
  shows "sizeAtScale L sc' \<le> sizeAtScale L sc"
proof -
  have "PHI_INV ^ sc' \<le> PHI_INV ^ sc"
    using assms PHI_INV_bounds by (intro power_decreasing) simp_all
  then have "real L * PHI_INV ^ sc' \<le> real L * PHI_INV ^ sc"
    by (intro mult_left_mono) simp_all
  then show ?thesis
    unfolding sizeAtScale_def by (intro nat_mono floor_mono)
qed

subsection \<open>The segmenter\<close>

lemma segmentLoop_terminates:
  assumes "0 < stepOf S"
  shows "\<exists>segs. segmentLoop d S i acc = Some segs"
proof (induction "length d + 1 - i" arbitrary: i acc rule: less_induct)
  case less
  show ?case
  proof (cases "int i < int (length d) - int S + 1")
    case True
    then have "length d + 1 - (i + stepOf S) < length d + 1 - i"
      using assms by linarith
    from less[OF this] show ?thesis
      using True by (subst segmentLoop.simps) simp
  next
    case False
    then show ?thesis by (subst segmentLoop.simps) simp
  qed
qed

lemma segmentLoop_stuck:
  assumes run: "segmentLoop d S i acc = Some segs"
  shows "0 < stepOf S \<or> \<not> int i < int (length d) - int S + 1"
proof (rule segmentLoop.raw_induct
    [where P = "\<lambda>d S i acc segs. 0 < stepOf S \<or> \<not> int i < int (length d) - int S + 1",
      OF _ run], goal_cases)
  case (1 f d S i acc segs)
  show ?case
  proof (cases "int i < int (length d) - int S + 1")
    case True
    with 1(2) have "f d S (i + stepOf S)
        (acc @ [\<lparr>seg_data = take S (drop i d), seg_position = i\<rparr>]) = Some segs"
      by simp
    from 1(1)[OF this] True show ?thesis by (cases "stepOf S = 0") auto
  next
    case False
    then show ?thesis by simp
  qed
qed

lemma segmentLoop_diverges:
  "stepOf S = 0 \<Longrightarrow> int i < int (length d) - int S + 1 \<Longrightarrow> segmentLoop d S i acc = None"
  using segmentLoop_stuck[of d S i acc] by (cases "segmentLoop d S i acc") auto

lemma segmentLoop_invariant:
  assumes run: "segmentLoop d S i acc = Some segs"
  shows "(\<forall>s\<in>set acc. segmentOK d S s \<and> seg_position s < i) \<longrightarrow>
         sorted_wrt (<) (map seg_position acc) \<longrightarrow> 0 < stepOf S \<longrightarrow>
         (\<forall>s\<in>set segs. segmentOK d S s) \<and> sorted_wrt (<) (map seg_position segs)"
proof (rule segmentLoop.raw_induct
    [where P = "\<lambda>d S i acc segs.
        (\<forall>s\<in>set acc. segmentOK d S s \<and> seg_position s < i) \<longrightarrow>
         sorted_wrt (<) (map seg_position acc) \<longrightarrow> 0 < stepOf S \<longrightarrow>
         (\<forall>s\<in>set segs. segmentOK d S s) \<and> sorted_wrt (<) (map seg_position segs)",
      OF _ run], goal_cases)
  case (1 f d S i acc segs)
  show ?case
  proof (intro impI)
    assume inv: "\<forall>s\<in>set acc. segmentOK d S s \<and> seg_position s < i"
      and srt: "sorted_wrt (<) (map seg_position acc)" and pos: "0 < stepOf S"
    show "(\<forall>s\<in>set segs. segmentOK d S s) \<and> sorted_wrt (<) (map seg_position segs)"
    proof (cases "int i < int (length d) - int S + 1")
      case True
      let ?acc = "acc @ [\<lparr>seg_data = take S (drop i d), seg_position = i\<rparr>]"
      from True 1(2) have call: "f d S (i + stepOf S) ?acc = Some segs"
        by simp
      have ok: "\<forall>s\<in>set ?acc. segmentOK d S s \<and> seg_position s < i + stepOf S"
        using inv pos True by (auto simp: segmentOK_def)
      have srt': "sorted_wrt (<) (map seg_position ?acc)"
        using inv srt by (auto simp: sorted_wrt_append)
      from 1(1)[OF call] ok srt' pos show ?thesis by blast
    next
      case False
      with 1(2) have "segs = acc" by simp
      with inv srt show ?thesis by auto
    qed
  qed
qed

lemma segmentData_invariant:
  assumes "segmentData d S = Some segs" and "2 \<le> S"
  shows "(\<forall>s\<in>set segs. segmentOK d S s) \<and> sorted_wrt (<) (map seg_position segs)"
  using segmentLoop_invariant[of d S 0 "[]" segs] assms stepOf_pos[of S]
  by (simp add: segmentData_def)

text \<open>
  C7 (as amended). For every input sequence and every segment size \<open>S \<ge> 2\<close> the
  segmenter terminates and returns a list of segments: the step
  \<open>floor (S * PHI_INV)\<close> is at least \<open>1\<close> there. The pipeline calls the segmenter
  only with \<open>S \<ge> 4\<close>.
\<close>

theorem segmentData_terminates:
  "2 \<le> segSize \<Longrightarrow> \<exists>segments. segmentData data segSize = Some segments"
  unfolding segmentData_def by (rule segmentLoop_terminates) (rule stepOf_pos)

theorem segmentData_terminates_witness:
  "(2::nat) \<le> 4 \<and> (\<exists>segments. segmentData overlapData 4 = Some segments)"
  using segmentData_terminates[of 4 overlapData] by simp

text \<open>
  C7 as stated fails at \<open>S = 1\<close>: the step is \<open>floor 0.618... = 0\<close>, the loop test
  \<open>0 < 1 - 1 + 1\<close> holds for a one-element input and stays true, and \<open>segmentData\<close>
  has no guard, so the loop never ends.
\<close>

theorem segmentData_size_one_diverges: "segmentData [0] 1 = None"
  unfolding segmentData_def using stepOf_1 by (intro segmentLoop_diverges) simp_all

subsection \<open>The correlation\<close>

lemma THRESHOLD_value: "THRESHOLD = 5764607523034235 / 576460752303423488"
  unfolding THRESHOLD_def
  using roundD_eval_pos[of "1 / 100" "- 7" 5764607523034235] by simp

lemma matchThreshold_value: "matchThreshold = Num (4458563631096791 / 4503599627370496)"
  unfolding matchThreshold_def jsub_def THRESHOLD_value
  using fl_eval[of "1 - 5764607523034235 / 576460752303423488" "- 1" 8917127262193582]
  by simp

lemma threshold_value:
  "\<exists>t. matchThreshold = Num t \<and> 63 / 64 \<le> t \<and> t \<le> 127 / 128"
  unfolding matchThreshold_value
  by (rule exI[of _ "4458563631096791 / 4503599627370496"]) simp

lemma js_gt_matchThreshold: "js_gt (Num x) matchThreshold = (4458563631096791 / 4503599627370496 < x)"
  by (simp add: matchThreshold_value)

lemma jsqrt_cases: "jsqrt r = NaN \<or> jsqrt r = PInf \<or> (\<exists>d. jsqrt r = Num d \<and> 0 \<le> d)"
proof (cases r)
  case (Num x)
  show ?thesis
  proof (cases "x < 0")
    case True
    with Num show ?thesis by simp
  next
    case False
    then have "0 \<le> roundD (sqrt x)" by (intro roundD_nonneg) simp
    moreover have "0 < overflowBound"
      using overflowBound_big by (simp add: less_trans[of 0 "2 ^ 53"])
    ultimately show ?thesis using Num False by (auto simp: fl_def Let_def)
  qed
qed simp_all

lemma no_match_nonpos:
  assumes "x \<le> 0"
  shows "\<not> js_gt (if js_is_zero (jsqrt r) then Num 0 else jdiv (Num x) (jsqrt r))
              matchThreshold"
proof -
  from threshold_value obtain t where t: "matchThreshold = Num t" "63 / 64 \<le> t"
    by blast
  from jsqrt_cases[of r] consider (nan) "jsqrt r = NaN" | (inf) "jsqrt r = PInf"
    | (num) d where "jsqrt r = Num d" "0 \<le> d" by blast
  then show ?thesis
  proof cases
    case nan
    then show ?thesis by (simp add: js_is_zero_def)
  next
    case inf
    with t(2) show ?thesis unfolding t(1) by (simp add: js_is_zero_def)
  next
    case num
    show ?thesis
    proof (cases "d = 0")
      case True
      with num t(2) show ?thesis unfolding t(1) by (simp add: js_is_zero_def)
    next
      case False
      with num assms have "x / d \<le> 0" by (simp add: divide_nonpos_pos)
      from fl_nonpos[OF this] num False t(2) show ?thesis
        unfolding t(1) by (auto simp: js_is_zero_def)
    qed
  qed
qed

lemma no_match_bound:
  assumes "0 \<le> x" and "0 < c" and "roundD c = c" and "c * c \<le> q" and "x \<le> 63 / 64 * c"
  shows "\<not> js_gt (if js_is_zero (jsqrt (Num q)) then Num 0 else jdiv (Num x) (jsqrt (Num q)))
              matchThreshold"
proof -
  from threshold_value obtain t where t: "matchThreshold = Num t" "63 / 64 \<le> t"
    by blast
  from assms(2,4) have q: "0 \<le> q" by (smt (verit) mult_nonneg_nonneg)
  have "c \<le> sqrt q"
    using assms(2,4) by (intro real_le_rsqrt) (simp add: power2_eq_square)
  from roundD_mono[OF this] assms(3) have low: "c \<le> roundD (sqrt q)" by simp
  from jsqrt_cases[of "Num q"] consider (nan) "jsqrt (Num q) = NaN" | (inf) "jsqrt (Num q) = PInf"
    | (num) d where "jsqrt (Num q) = Num d" "0 \<le> d" by blast
  then show ?thesis
  proof cases
    case nan
    then show ?thesis by (simp add: js_is_zero_def)
  next
    case inf
    with t(2) show ?thesis unfolding t(1) by (simp add: js_is_zero_def)
  next
    case num
    from num(1) q have "d = roundD (sqrt q)"
      by (auto simp: fl_def Let_def split: if_splits)
    with low have d: "c \<le> d" by simp
    with assms(2) have dpos: "0 < d" by simp
    have "x / d \<le> x / c"
      using assms(1,2) d by (intro divide_left_mono) simp_all
    also have "\<dots> \<le> 63 / 64" using assms(2,5) by (simp add: field_simps)
    finally have up: "x / d \<le> 63 / 64" .
    have "0 \<le> x / d" using assms(1) dpos by simp
    from fl_between[OF this up] obtain r where "fl (x / d) = Num r" "r \<le> 63 / 64"
      by (auto simp: roundD_63_64)
    with num dpos t(2) show ?thesis unfolding t(1) by (simp add: js_is_zero_def)
  qed
qed

lemma calculateCorrelation_eq:
  "length a = length b \<Longrightarrow>
   calculateCorrelation a b =
     (if js_is_zero (jsqrt (corrRadicand a b)) then Num 0
      else jdiv (corrNumerator a b) (jsqrt (corrRadicand a b)))"
  by (simp add: calculateCorrelation_def corrNumerator_def corrRadicand_def Let_def)

lemma no_match_nonpos_num:
  assumes "length a = length b" and "corrNumerator a b = Num x" and "x \<le> 0"
  shows "\<not> js_gt (calculateCorrelation a b) matchThreshold"
  unfolding calculateCorrelation_eq[OF assms(1)] assms(2) by (rule no_match_nonpos[OF assms(3)])

lemma no_match_small_num:
  assumes "length a = length b" and "corrNumerator a b = Num x" and "corrRadicand a b = Num q"
    and "0 \<le> x" and "0 < c" and "roundD c = c" and "c * c \<le> q" and "x \<le> 63 / 64 * c"
  shows "\<not> js_gt (calculateCorrelation a b) matchThreshold"
  unfolding calculateCorrelation_eq[OF assms(1)] assms(2,3) by (rule no_match_bound[OF assms(4-8)])

text \<open>
  C8. The claim asks for \<open>0\<close>, not \<open>NaN\<close>, whenever the Pearson denominator is zero.
  On two empty vectors the code returns \<open>NaN\<close>: \<open>n = 0\<close>, the quotient
  \<open>sum1 * sum2 / n\<close> is \<open>0 / 0\<close>, so \<open>den\<close> is \<open>NaN\<close>, which the guard
  \<open>den === 0\<close> does not catch.
\<close>

theorem calculateCorrelation_empty: "calculateCorrelation [] [] = NaN"
  by (simp add: calculateCorrelation_def Let_def jsub_def js_is_zero_def)

text \<open>
  The guard also misses a radicand that rounding makes negative. For the constant
  vector of three samples \<open>134298099\<close> the square \<open>18035979395013801\<close> rounds down to
  \<open>18035979395013800\<close> and \<open>sum1 * sum1 = 162323814555124209\<close> rounds up to
  \<open>162323814555124224\<close>, so \<open>sum1Sq - sum1 * sum1 / n\<close> is \<open>-8\<close>; against \<open>[1, 2, 3]\<close>
  the radicand is \<open>-16\<close> and \<open>Math.sqrt\<close> gives \<open>NaN\<close>.
\<close>

lemma jdiv_NaN: "jdiv a NaN = NaN"
  by (cases a) simp_all

lemma constant_vector_steps:
  "fl 18035979395013801 = Num 18035979395013800"
  "fl 18035979395013800 = Num 18035979395013800"
  "fl 36071958790027600 = Num 36071958790027600"
  "fl 54107938185041400 = Num 54107938185041400"
  "fl 162323814555124209 = Num 162323814555124224"
  "fl 54107938185041408 = Num 54107938185041408"
  using fl_eval_wide[of 18035979395013801 54 4508994848753450]
    fl_eval_wide[of 18035979395013800 54 4508994848753450]
    fl_eval_wide[of 36071958790027600 55 4508994848753450]
    fl_eval_wide[of 54107938185041400 55 6763492273130175]
    fl_eval_wide[of 162323814555124209 57 5072619204847632]
    fl_eval_wide[of 54107938185041408 55 6763492273130176]
  by simp_all

lemma calculateCorrelation_constant_vector:
  "calculateCorrelation [134298099, 134298099, 134298099] [1, 2, 3] = NaN"
  by (simp add: calculateCorrelation_def Let_def jsub_def js_is_zero_def constant_vector_steps
      jdiv_NaN fl_minus)

subsection \<open>The matcher\<close>

lemma findSimilarSegments_master:
  assumes "sim \<in> set (findSimilarSegments segs)"
  shows "masterIndex sim < length segs \<and> masterData sim = seg_data (segs ! masterIndex sim)
       \<and> masterPosition sim = seg_position (segs ! masterIndex sim)
       \<and> matches sim = matchesOf segs (masterIndex sim) \<and> matches sim \<noteq> []"
  using assms by (auto simp: findSimilarSegments_def Let_def split: if_splits)


subsection \<open>The ratio estimator\<close>

lemma foldl_ratioStep:
  "foldl (ratioStep S) acc sims =
     (fst acc + sum_list (map (\<lambda>sim. S * (1 + int (length (matches sim)))
                               - (S + int (length (matches sim)) * 8)) sims),
      snd acc + sum_list (map (\<lambda>sim. S * (1 + int (length (matches sim)))) sims))"
  by (induction sims arbitrary: acc) (simp_all add: ratioStep_def Let_def)

text \<open>
  C3 (as amended). The estimator returns \<open>totalSaved / totalOriginal\<close> with, per
  cluster, \<open>originalSize = S * (1 + matchCount)\<close> and
  \<open>compressedSize = S + matchCount * 8\<close>: the cost of a reference is \<open>8\<close>, not
  \<open>12\<close>. It returns \<open>0\<close> when \<open>totalOriginal\<close> is not positive, in particular for
  the empty cluster list.
\<close>

theorem calculateCompressionRatio_formula:
  "calculateCompressionRatio sims S =
     (let totalSaved = sum_list (map (\<lambda>sim. S * (1 + int (length (matches sim)))
                               - (S + int (length (matches sim)) * 8)) sims);
          totalOriginal = sum_list (map (\<lambda>sim. S * (1 + int (length (matches sim)))) sims)
      in if totalOriginal > 0 then real_of_int totalSaved / real_of_int totalOriginal else 0)
   \<and> calculateCompressionRatio [] S = 0"
proof
  have totals: "foldl (ratioStep S) (0, 0) sims =
      (sum_list (map (\<lambda>sim. S * (1 + int (length (matches sim)))
                       - (S + int (length (matches sim)) * 8)) sims),
       sum_list (map (\<lambda>sim. S * (1 + int (length (matches sim)))) sims))"
    by (simp add: foldl_ratioStep)
  show "calculateCompressionRatio sims S =
     (let totalSaved = sum_list (map (\<lambda>sim. S * (1 + int (length (matches sim)))
                               - (S + int (length (matches sim)) * 8)) sims);
          totalOriginal = sum_list (map (\<lambda>sim. S * (1 + int (length (matches sim)))) sims)
      in if totalOriginal > 0 then real_of_int totalSaved / real_of_int totalOriginal else 0)"
    unfolding calculateCompressionRatio_def totals by (simp add: Let_def)
  show "calculateCompressionRatio [] S = 0"
    by (simp add: calculateCompressionRatio_def)
qed

text \<open>
  C3 as stated fails: on one cluster with one match and \<open>S = 4\<close> the code returns
  \<open>(8 - 12) / 8\<close>, the specification's formula gives \<open>(8 - 16) / 8\<close>.
\<close>

theorem calculateCompressionRatio_not_spec:
  "calculateCompressionRatio [oneMatchCluster] 4 = - 1 / 2
   \<and> specCompressionRatio [oneMatchCluster] 4 = - 1"
  by (simp add: calculateCompressionRatio_def specCompressionRatio_def oneMatchCluster_def
      ratioStep_def Let_def)

lemma saved_term_nonneg:
  fixes S :: int
  assumes "8 \<le> S"
  shows "0 \<le> S * (1 + int m) - (S + int m * 8)"
proof -
  have "S * (1 + int m) - (S + int m * 8) = int m * (S - 8)"
    by (simp add: algebra_simps)
  moreover have "0 \<le> int m * (S - 8)"
    using assms by simp
  ultimately show ?thesis by simp
qed

lemma saved_nonneg:
  "8 \<le> S \<Longrightarrow>
   0 \<le> sum_list (map (\<lambda>sim. S * (1 + int (length (matches sim)))
                       - (S + int (length (matches sim)) * 8)) sims)"
  by (rule sum_list_nonneg) (auto simp del: of_nat_add intro: saved_term_nonneg)

text \<open>
  C5 (as amended). For every cluster list and every segment size \<open>S \<ge> 8\<close> the
  estimator's value is not negative.
\<close>

theorem calculateCompressionRatio_nonneg:
  "8 \<le> S \<Longrightarrow> 0 \<le> calculateCompressionRatio sims S"
  using saved_nonneg[of S sims]
  by (simp add: calculateCompressionRatio_def foldl_ratioStep Let_def)

theorem calculateCompressionRatio_nonneg_witness:
  "(8::int) \<le> 8 \<and> 0 \<le> calculateCompressionRatio [oneMatchCluster] 8"
  using calculateCompressionRatio_nonneg[of 8 "[oneMatchCluster]"] by simp

text \<open>
  C5 as stated fails at \<open>S = 4\<close>, a size the pipeline supplies: one cluster with one
  match has a negative estimate.
\<close>

theorem calculateCompressionRatio_negative:
  "calculateCompressionRatio [oneMatchCluster] 4 < 0"
  by (simp add: calculateCompressionRatio_def oneMatchCluster_def ratioStep_def Let_def)

text \<open>
  For the sizes 1..7, of which the pipeline can supply 4..7, every match costs more
  than it saves: the estimate is negative as soon as a cluster has a match.
\<close>

lemma sum_list_neg:
  fixes f :: "'a \<Rightarrow> int"
  assumes "\<forall>x\<in>set xs. f x \<le> 0" and "\<exists>x\<in>set xs. f x < 0"
  shows "sum_list (map f xs) < 0"
  using assms
proof (induction xs)
  case Nil
  then show ?case by simp
next
  case (Cons x xs)
  have rest: "sum_list (map f xs) \<le> 0"
    using Cons.prems(1) by (intro sum_list_nonpos) auto
  show ?case
  proof (cases "f x < 0")
    case True
    with rest show ?thesis by simp
  next
    case False
    with Cons.prems have "\<exists>y\<in>set xs. f y < 0" and "f x \<le> 0" by auto
    with Cons.IH Cons.prems(1) show ?thesis by simp
  qed
qed

lemma calculateCompressionRatio_small_size:
  assumes "0 < S" and "S < 8" and "\<exists>sim\<in>set sims. matches sim \<noteq> []"
  shows "calculateCompressionRatio sims S < 0"
proof -
  let ?saved = "\<lambda>sim. S * (1 + int (length (matches sim))) - (S + int (length (matches sim)) * 8)"
  let ?orig = "\<lambda>sim. S * (1 + int (length (matches sim)))"
  have eq: "?saved sim = int (length (matches sim)) * (S - 8)" for sim
    by (simp add: algebra_simps)
  have "\<forall>sim\<in>set sims. ?saved sim \<le> 0"
    unfolding eq using assms(2) by (simp add: mult_nonneg_nonpos)
  moreover have "\<exists>sim\<in>set sims. ?saved sim < 0"
    unfolding eq using assms(2,3) by (auto intro!: bexI mult_pos_neg)
  ultimately have saved: "sum_list (map ?saved sims) < 0"
    by (rule sum_list_neg)
  from assms(3) obtain sim where sim: "sim \<in> set sims" by auto
  have "\<forall>x\<in>set sims. 0 \<le> ?orig x" using assms(1) by simp
  have "0 < ?orig sim" using assms(1) by simp
  also have "?orig sim \<le> sum_list (map ?orig sims)"
    using sim assms(1) by (intro member_le_sum_list) auto
  finally have orig: "0 < sum_list (map ?orig sims)" .
  from saved orig show ?thesis
    by (simp add: calculateCompressionRatio_def foldl_ratioStep Let_def divide_neg_pos)
qed

subsection \<open>The pattern selector\<close>

lemma detectLoop_patternOK:
  "detectLoop d sc pats = Some res \<Longrightarrow> \<forall>p\<in>set pats. patternOK d p \<Longrightarrow> \<forall>p\<in>set res. patternOK d p"
proof (induction d sc pats arbitrary: res rule: detectLoop.induct)
  case (1 d sc pats)
  show ?case
  proof (cases "sc \<le> 8 \<and> \<not> sizeAtScale (length d) sc < 4")
    case False
    with "1.prems" show ?thesis
      by (subst (asm) detectLoop.simps) (auto simp: Let_def split: if_splits)
  next
    case True
    let ?S = "sizeAtScale (length d) sc"
    from True "1.prems"(1) obtain segs where segs: "segmentData d ?S = Some segs"
      by (subst (asm) detectLoop.simps) (auto simp: Let_def split: option.splits)
    let ?sims = "findSimilarSegments segs"
    let ?pats = "if 0 < length ?sims
        then pats @ [\<lparr>scale = sc, segmentSize = ?S, patterns = ?sims,
               compressionRatio = calculateCompressionRatio ?sims (int ?S)\<rparr>]
        else pats"
    from True "1.prems"(1) segs have run: "detectLoop d (sc + 1) ?pats = Some res"
      by (subst (asm) detectLoop.simps) (simp add: Let_def)
    have ok: "\<forall>p\<in>set ?pats. patternOK d p"
      using "1.prems"(2) True segs by (auto simp: patternOK_def)
    from True have a: "sc \<le> 8" and b: "\<not> ?S < 4" by auto
    show ?thesis
      by (rule "1.IH"[OF a refl b segs refl run ok])
  qed
qed

lemma detectLoop_terminates: "\<exists>res. detectLoop d sc pats = Some res"
proof (induction d sc pats rule: detectLoop.induct)
  case (1 d sc pats)
  show ?case
  proof (cases "sc \<le> 8 \<and> \<not> sizeAtScale (length d) sc < 4")
    case False
    then show ?thesis
      by (subst detectLoop.simps) (auto simp: Let_def)
  next
    case True
    let ?S = "sizeAtScale (length d) sc"
    from True have "2 \<le> ?S" by simp
    from segmentLoop_terminates[OF stepOf_pos[OF this]]
    obtain segs where segs: "segmentData d ?S = Some segs"
      unfolding segmentData_def by blast
    from True have a: "sc \<le> 8" and b: "\<not> ?S < 4" by auto
    from "1.IH"[OF a refl b segs refl] show ?thesis
      using True segs by (subst detectLoop.simps) (simp add: Let_def)
  qed
qed

lemma detectFractalPatterns_terminates: "\<exists>pats. detectFractalPatterns d = Some pats"
  using detectLoop_terminates[of d 1 "[]"] by (auto simp: detectFractalPatterns_def)

lemma detectFractalPatterns_patternOK:
  assumes "detectFractalPatterns d = Some pats" and "p \<in> set pats"
  shows "patternOK d p"
proof -
  from assms(1) obtain res where res: "detectLoop d 1 [] = Some res"
    and pats: "pats = sort_key (\<lambda>p. - compressionRatio p) res"
    by (auto simp: detectFractalPatterns_def)
  from detectLoop_patternOK[OF res] have "\<forall>p\<in>set res. patternOK d p" by simp
  with assms(2) pats show ?thesis by simp
qed

lemma encode_success:
  assumes "encode d = Some r" and "success r"
  shows "\<exists>p. patternOK d p \<and> encoded r = createEncodedStructure d p"
proof -
  from assms obtain pats where pats: "detectFractalPatterns d = Some pats" and ne: "pats \<noteq> []"
    and enc: "encoded r = createEncodedStructure d (pats ! 0)"
    by (auto simp: encode_def Let_def split: option.splits if_splits)
  from ne have "pats ! 0 \<in> set pats" by simp
  from detectFractalPatterns_patternOK[OF pats this] enc show ?thesis by blast
qed

lemma patternOK_masterData:
  assumes "patternOK d p" and "sim \<in> set (patterns p)"
  shows "length (masterData sim) = segmentSize p"
proof -
  from assms(1) obtain segs where S: "4 \<le> segmentSize p"
    and segs: "segmentData d (segmentSize p) = Some segs"
    and pp: "patterns p = findSimilarSegments segs"
    by (auto simp: patternOK_def)
  from assms(2) pp have m: "masterIndex sim < length segs"
    "masterData sim = seg_data (segs ! masterIndex sim)"
    using findSimilarSegments_master[of sim segs] by auto
  from segmentData_invariant[OF segs] S have "segmentOK d (segmentSize p) (segs ! masterIndex sim)"
    using m(1) by simp
  then show ?thesis using m(2) by (auto simp: segmentOK_def)
qed

lemma detectLoop_no_cluster:
  "noClusterAtAnyScale d \<Longrightarrow> 1 \<le> sc \<Longrightarrow> pats = [] \<Longrightarrow> detectLoop d sc pats = Some []"
proof (induction d sc pats rule: detectLoop.induct)
  case (1 d sc pats)
  show ?case
  proof (cases "sc \<le> 8 \<and> \<not> sizeAtScale (length d) sc < 4")
    case False
    with "1.prems"(3) show ?thesis
      by (subst detectLoop.simps) (auto simp: Let_def)
  next
    case True
    let ?S = "sizeAtScale (length d) sc"
    from True "1.prems"(1,2) have "clustersAtScale d sc = Some []"
      by (simp add: noClusterAtAnyScale_def)
    then obtain segs where segs: "segmentData d ?S = Some segs"
      and none: "findSimilarSegments segs = []"
      by (auto simp: clustersAtScale_def)
    from True have a: "sc \<le> 8" and b: "\<not> ?S < 4" by auto
    have "detectLoop d (sc + 1) (if 0 < length (findSimilarSegments segs)
        then pats @ [\<lparr>scale = sc, segmentSize = ?S, patterns = findSimilarSegments segs,
               compressionRatio = calculateCompressionRatio (findSimilarSegments segs) (int ?S)\<rparr>]
        else pats) = Some []"
      using "1.prems" none by (intro "1.IH"[OF a refl b segs refl]) simp_all
    with True segs none show ?thesis
      by (subst detectLoop.simps) (simp add: Let_def)
  qed
qed

lemma detectLoop_grows:
  "detectLoop d sc pats = Some res \<Longrightarrow> pats \<noteq> [] \<Longrightarrow> res \<noteq> []"
proof (induction d sc pats arbitrary: res rule: detectLoop.induct)
  case (1 d sc pats)
  show ?case
  proof (cases "sc \<le> 8 \<and> \<not> sizeAtScale (length d) sc < 4")
    case False
    with "1.prems" show ?thesis
      by (subst (asm) detectLoop.simps) (auto simp: Let_def split: if_splits)
  next
    case True
    let ?S = "sizeAtScale (length d) sc"
    from True "1.prems"(1) obtain segs where segs: "segmentData d ?S = Some segs"
      by (subst (asm) detectLoop.simps) (auto simp: Let_def split: option.splits)
    let ?sims = "findSimilarSegments segs"
    let ?pats = "if 0 < length ?sims
        then pats @ [\<lparr>scale = sc, segmentSize = ?S, patterns = ?sims,
               compressionRatio = calculateCompressionRatio ?sims (int ?S)\<rparr>]
        else pats"
    from True "1.prems"(1) segs have run: "detectLoop d (sc + 1) ?pats = Some res"
      by (subst (asm) detectLoop.simps) (simp add: Let_def)
    have ne: "?pats \<noteq> []" using "1.prems"(2) by simp
    from True have a: "sc \<le> 8" and b: "\<not> ?S < 4" by auto
    show ?thesis
      by (rule "1.IH"[OF a refl b segs refl run ne])
  qed
qed

lemma detectLoop_empty_no_cluster:
  "detectLoop d sc pats = Some [] \<Longrightarrow> sc \<le> sc' \<Longrightarrow> sc' \<le> 8 \<Longrightarrow>
   4 \<le> sizeAtScale (length d) sc' \<Longrightarrow> clustersAtScale d sc' = Some []"
proof (induction d sc pats rule: detectLoop.induct)
  case (1 d sc pats)
  let ?S = "sizeAtScale (length d) sc"
  from sizeAtScale_antimono[OF "1.prems"(2), of "length d"] "1.prems"(4) have b: "\<not> ?S < 4"
    by simp
  from "1.prems"(2,3) have a: "sc \<le> 8" by simp
  from a b "1.prems"(1) obtain segs where segs: "segmentData d ?S = Some segs"
    by (subst (asm) detectLoop.simps) (auto simp: Let_def split: option.splits)
  let ?sims = "findSimilarSegments segs"
  let ?pats = "if 0 < length ?sims
        then pats @ [\<lparr>scale = sc, segmentSize = ?S, patterns = ?sims,
               compressionRatio = calculateCompressionRatio ?sims (int ?S)\<rparr>]
        else pats"
  from a b "1.prems"(1) segs have run: "detectLoop d (sc + 1) ?pats = Some []"
    by (subst (asm) detectLoop.simps) (simp add: Let_def)
  have none: "?sims = []"
  proof (rule ccontr)
    assume "?sims \<noteq> []"
    then have "?pats \<noteq> []" by simp
    from detectLoop_grows[OF run this] show False by simp
  qed
  show ?case
  proof (cases "sc' = sc")
    case True
    with segs none show ?thesis by (simp add: clustersAtScale_def)
  next
    case False
    with "1.prems"(2) have "sc + 1 \<le> sc'" by simp
    from "1.IH"[OF a refl b segs refl run this "1.prems"(3,4)] show ?thesis .
  qed
qed

lemma encode_terminates: "\<exists>r. encode d = Some r"
  using detectFractalPatterns_terminates[of d]
  by (auto simp: encode_def Let_def)

text \<open>
  The failure result is returned exactly when no sampled scale yields a cluster.
\<close>

lemma encode_failure_iff:
  "(\<exists>r. encode d = Some r \<and> \<not> success r) = noClusterAtAnyScale d"
proof
  assume "\<exists>r. encode d = Some r \<and> \<not> success r"
  then obtain pats where "detectFractalPatterns d = Some pats" and "pats = []"
    by (auto simp: encode_def Let_def split: option.splits if_splits)
  then obtain res where res: "detectLoop d 1 [] = Some res"
    and srt: "sort_key (\<lambda>p. - compressionRatio p) res = []"
    by (auto simp: detectFractalPatterns_def)
  from srt have "length res = 0"
    using length_sort[of "\<lambda>p. - compressionRatio p" res] by simp
  with res have run: "detectLoop d 1 [] = Some []" by simp
  show "noClusterAtAnyScale d"
    unfolding noClusterAtAnyScale_def
  proof (intro ballI impI)
    fix sc assume "sc \<in> {1 .. 8}" and "4 \<le> sizeAtScale (length d) sc"
    with detectLoop_empty_no_cluster[OF run, of sc] show "clustersAtScale d sc = Some []"
      by simp
  qed
next
  assume "noClusterAtAnyScale d"
  from detectLoop_no_cluster[OF this, of 1 "[]"] show "\<exists>r. encode d = Some r \<and> \<not> success r"
    by (simp add: encode_def detectFractalPatterns_def)
qed


subsection \<open>The encoder\<close>

lemma foldl_addMatch:
  "foldl (addMatch k) acc ms =
     (fst acc @ map (\<lambda>m. \<lparr>r_masterIndex = k - 1, r_position = m_position m,
                           r_correlation = m_correlation m\<rparr>) ms,
      snd acc \<union> m_position ` set ms)"
  by (induction ms arbitrary: acc) (auto simp: addMatch_def)

lemma addSimilarity_eq:
  "addSimilarity acc sim =
     (fst acc @ [\<lparr>ms_position = masterPosition sim, ms_data = masterData sim\<rparr>],
      fst (snd acc) @ map (\<lambda>m. \<lparr>r_masterIndex = length (fst acc), r_position = m_position m,
                           r_correlation = m_correlation m\<rparr>) (matches sim),
      insert (masterPosition sim) (snd (snd acc)) \<union> m_position ` set (matches sim))"
  by (simp add: addSimilarity_def Let_def foldl_addMatch)

lemma accInv_addSimilarity: "accInv acc \<Longrightarrow> accInv (addSimilarity acc sim)"
proof -
  assume inv: "accInv acc"
  let ?new = "map (\<lambda>m. \<lparr>r_masterIndex = length (fst acc), r_position = m_position m,
                           r_correlation = m_correlation m\<rparr>) (matches sim)"
  have pos: "r_position ` set ?new = m_position ` set (matches sim)"
    by (simp add: image_image)
  have idx: "\<forall>r\<in>set (fst (snd acc) @ ?new). r_masterIndex r < Suc (length (fst acc))"
    using inv by (auto simp: accInv_def less_Suc_eq)
  have used: "insert (masterPosition sim) (snd (snd acc)) \<union> m_position ` set (matches sim) =
      ms_position ` set (fst acc @ [\<lparr>ms_position = masterPosition sim, ms_data = masterData sim\<rparr>])
      \<union> r_position ` set (fst (snd acc) @ ?new)"
    using inv unfolding accInv_def set_append image_Un pos by auto
  show ?thesis
    unfolding accInv_def addSimilarity_eq using idx used by simp
qed

lemma accInv_foldl: "accInv acc \<Longrightarrow> accInv (foldl addSimilarity acc sims)"
  by (induction sims arbitrary: acc) (simp_all add: accInv_addSimilarity)

lemma masters_foldl:
  "fst (foldl addSimilarity acc sims) =
     fst acc @ map (\<lambda>sim. \<lparr>ms_position = masterPosition sim, ms_data = masterData sim\<rparr>) sims"
  by (induction sims arbitrary: acc) (simp_all add: addSimilarity_eq)

lemma accInv_init: "accInv ([], [], {})"
  by (simp add: accInv_def)

lemma createEncodedStructure_masterIndex:
  "r \<in> set (references (createEncodedStructure d p)) \<Longrightarrow>
   r_masterIndex r < length (masterSegments (createEncodedStructure d p))"
  using accInv_foldl[OF accInv_init, of "patterns p"]
  by (simp add: createEncodedStructure_def Let_def accInv_def)

lemma createEncodedStructure_used:
  "off < length d \<Longrightarrow>
   off \<in> ms_position ` set (masterSegments (createEncodedStructure d p))
     \<union> r_position ` set (references (createEncodedStructure d p))
   \<or> isResidualOffset (createEncodedStructure d p) off"
  using accInv_foldl[OF accInv_init, of "patterns p"]
  by (auto simp: createEncodedStructure_def Let_def accInv_def isResidualOffset_def image_iff)

lemma createEncodedStructure_master_data:
  "m \<in> set (masterSegments (createEncodedStructure d p)) \<Longrightarrow>
   \<exists>sim\<in>set (patterns p). ms_data m = masterData sim"
  by (auto simp: createEncodedStructure_def Let_def masters_foldl)

lemma createEncodedStructure_covered:
  assumes nonempty: "\<forall>sim\<in>set (patterns p). masterData sim \<noteq> []" and off: "off < length d"
  shows "coveredByMaster (createEncodedStructure d p) off
       \<or> coveredByReference (createEncodedStructure d p) off
       \<or> isResidualOffset (createEncodedStructure d p) off"
proof -
  let ?st = "createEncodedStructure d p"
  have data: "ms_data m \<noteq> []" if "m \<in> set (masterSegments ?st)" for m
    using createEncodedStructure_master_data[OF that] nonempty by auto
  consider (master) m where "m \<in> set (masterSegments ?st)" "ms_position m = off"
    | (ref) r where "r \<in> set (references ?st)" "r_position r = off"
    | (res) "isResidualOffset ?st off"
    using createEncodedStructure_used[OF off, of p] by auto
  then show ?thesis
  proof cases
    case master
    with data[of m] have "coveredByMaster ?st off"
      unfolding coveredByMaster_def by (intro bexI[of _ m]) auto
    then show ?thesis by simp
  next
    case ref
    have idx: "r_masterIndex r < length (masterSegments ?st)"
      using createEncodedStructure_masterIndex[OF ref(1)] .
    then have "ms_data (masterSegments ?st ! r_masterIndex r) \<noteq> []"
      using data by simp
    with ref idx have "coveredByReference ?st off"
      unfolding coveredByReference_def by (intro bexI[of _ r]) auto
    then show ?thesis by simp
  next
    case res
    then show ?thesis by simp
  qed
qed

lemma residual_createEncodedStructure:
  "distinct (map res_position (residual (createEncodedStructure d p)))"
  "e \<in> set (residual (createEncodedStructure d p)) \<Longrightarrow>
     res_position e < length d \<and> res_value e = d ! res_position e"
  by (auto simp: createEncodedStructure_def Let_def comp_def distinct_map_filter)

lemma originalLength_createEncodedStructure:
  "originalLength (header (createEncodedStructure d p)) = length d"
  by (simp add: createEncodedStructure_def Let_def)

subsection \<open>The decoder\<close>

lemma place_upto:
  "length (fold (\<lambda>i arr. if p + i < length arr then arr[p + i := Some (vs ! i)] else arr)
            [0 ..< n] arr) = length arr
   \<and> (\<forall>off < length arr.
        fold (\<lambda>i arr. if p + i < length arr then arr[p + i := Some (vs ! i)] else arr)
            [0 ..< n] arr ! off
        = (if p \<le> off \<and> off < p + n then Some (vs ! (off - p)) else arr ! off))"
proof (induction n)
  case 0
  show ?case by auto
next
  case (Suc n)
  let ?f = "\<lambda>i arr. if p + i < length arr then arr[p + i := Some (vs ! i)] else arr"
  let ?a = "fold ?f [0 ..< n] arr"
  from Suc have len: "length ?a = length arr"
    and nth: "\<And>off. off < length arr \<Longrightarrow>
        ?a ! off = (if p \<le> off \<and> off < p + n then Some (vs ! (off - p)) else arr ! off)"
    by auto
  have step: "fold ?f [0 ..< Suc n] arr = ?f n ?a" by simp
  show ?case
  proof (intro conjI allI impI)
    show "length (fold ?f [0 ..< Suc n] arr) = length arr"
      unfolding step using len by simp
  next
    fix off assume off: "off < length arr"
    show "fold ?f [0 ..< Suc n] arr ! off
        = (if p \<le> off \<and> off < p + Suc n then Some (vs ! (off - p)) else arr ! off)"
    proof (cases "off = p + n")
      case True
      with off len show ?thesis unfolding step by simp
    next
      case False
      with off len nth[OF off] show ?thesis unfolding step by (auto simp: nth_list_update)
    qed
  qed
qed

lemma length_placeSegment [simp]: "length (placeSegment p vs arr) = length arr"
  using place_upto[of p vs "length vs" arr] by (simp add: placeSegment_def)

lemma nth_placeSegment:
  "off < length arr \<Longrightarrow>
   placeSegment p vs arr ! off = (if covers (p, vs) off then Some (vs ! (off - p)) else arr ! off)"
  using place_upto[of p vs "length vs" arr] by (simp add: placeSegment_def covers_def)

lemma length_applyWrites [simp]: "length (applyWrites ws arr) = length arr"
  by (induction ws arbitrary: arr) (simp_all add: applyWrites_def)

lemma applyWrites_append: "applyWrites (ws @ ws') arr = applyWrites ws' (applyWrites ws arr)"
  by (simp add: applyWrites_def)

lemma applyWrites_Cons: "applyWrites (w # ws) arr = applyWrites ws (placeSegment (fst w) (snd w) arr)"
  by (simp add: applyWrites_def)

lemma nth_applyWrites:
  "off < length arr \<Longrightarrow>
   applyWrites ws arr ! off = (case lastWriter ws off of Some v \<Rightarrow> Some v | None \<Rightarrow> arr ! off)"
proof (induction ws arbitrary: arr)
  case Nil
  show ?case by (simp add: applyWrites_def)
next
  case (Cons w ws)
  have "off < length (placeSegment (fst w) (snd w) arr)" using Cons.prems by simp
  from Cons.IH[OF this] Cons.prems show ?case
    by (simp add: applyWrites_Cons nth_placeSegment split: option.splits)
qed

lemma placeResidual_write: "placeResidual e arr = placeSegment (res_position e) [res_value e] arr"
  by (simp add: placeResidual_def placeSegment_def)

lemma fold_placeResidual:
  "fold placeResidual es arr = applyWrites (map (\<lambda>e. (res_position e, [res_value e])) es) arr"
  by (induction es arbitrary: arr) (simp_all add: applyWrites_def placeResidual_write)

lemma fold_placeRefs:
  "fold (\<lambda>ref arr. placeSegment (r_position ref) vs arr) rs arr
   = applyWrites (map (\<lambda>r. (r_position r, vs)) rs) arr"
  by (induction rs arbitrary: arr) (simp_all add: applyWrites_def)

lemma placeMaster_writes:
  "placeMaster refs mk arr = applyWrites (masterWrites refs mk) arr"
  by (simp add: placeMaster_def masterWrites_def fold_placeRefs applyWrites_Cons)

lemma fold_placeMaster:
  "fold (placeMaster refs) mks arr = applyWrites (concat (map (masterWrites refs) mks)) arr"
proof (induction mks arbitrary: arr)
  case Nil
  show ?case by (simp add: applyWrites_def)
next
  case (Cons mk mks)
  have "fold (placeMaster refs) (mk # mks) arr
      = fold (placeMaster refs) mks (placeMaster refs mk arr)"
    by simp
  also have "\<dots> = applyWrites (concat (map (masterWrites refs) mks)) (placeMaster refs mk arr)"
    by (rule Cons.IH)
  also have "\<dots> = applyWrites (concat (map (masterWrites refs) mks))
                      (applyWrites (masterWrites refs mk) arr)"
    by (simp only: placeMaster_writes)
  also have "\<dots> = applyWrites (masterWrites refs mk @ concat (map (masterWrites refs) mks)) arr"
    by (simp only: applyWrites_append)
  finally show ?case by simp
qed

lemma decodeStructure_applyWrites:
  "decodeStructure st = applyWrites (decodeWrites st) (replicate (originalLength (header st)) None)"
  by (simp add: decodeStructure_def decodeWrites_def residualWrites_def fold_placeResidual
      fold_placeMaster applyWrites_append)

lemma decodeStructure_lastWriter:
  "decodeStructure st = map (lastWriter (decodeWrites st)) [0 ..< originalLength (header st)]"
  by (rule nth_equalityI)
     (simp_all add: decodeStructure_applyWrites nth_applyWrites split: option.splits)

lemma lastWriter_append:
  "lastWriter (ws @ ws') off =
     (case lastWriter ws' off of Some v \<Rightarrow> Some v | None \<Rightarrow> lastWriter ws off)"
  by (induction ws) (simp_all split: option.splits)

lemma lastWriter_residual_none:
  "off \<notin> res_position ` set es \<Longrightarrow>
   lastWriter (map (\<lambda>e. (res_position e, [res_value e])) es) off = None"
  by (induction es) (auto simp: covers_def)

lemma lastWriter_residual:
  assumes "distinct (map res_position es)" and "e \<in> set es"
  shows "lastWriter (map (\<lambda>e. (res_position e, [res_value e])) es) (res_position e)
       = Some (res_value e)"
  using assms
proof (induction es)
  case Nil
  then show ?case by simp
next
  case (Cons x es)
  show ?case
  proof (cases "e \<in> set es")
    case True
    with Cons show ?thesis by simp
  next
    case False
    with Cons.prems have "e = x" and "res_position x \<notin> res_position ` set es" by auto
    then show ?thesis by (simp add: lastWriter_residual_none covers_def)
  qed
qed

lemma decodeStructure_residual:
  assumes "e \<in> set (residual (createEncodedStructure d p))"
  shows "decodeStructure (createEncodedStructure d p) ! res_position e = Some (d ! res_position e)"
proof -
  let ?st = "createEncodedStructure d p"
  from residual_createEncodedStructure(2)[OF assms] have pos: "res_position e < length d"
    and val: "res_value e = d ! res_position e" by auto
  have "lastWriter (decodeWrites ?st) (res_position e) = Some (res_value e)"
    unfolding decodeWrites_def residualWrites_def lastWriter_append
    using lastWriter_residual[OF residual_createEncodedStructure(1) assms] by simp
  with pos val show ?thesis
    by (simp add: decodeStructure_lastWriter originalLength_createEncodedStructure)
qed

subsection \<open>The pipeline on the concrete inputs\<close>

lemma length_overlapData: "length overlapData = 11"
  by (simp add: overlapData_def)

lemma segmentData_overlap_6:
  "segmentData overlapData 6 =
     Some [\<lparr>seg_data = [1, 3, 2, 5, 2, 6], seg_position = 0\<rparr>,
           \<lparr>seg_data = [5, 2, 6, 4, 10, 4], seg_position = 3\<rparr>]"
  by (simp add: segmentData_def overlapData_def segmentLoop.simps stepOf_6)

lemma segmentData_overlap_4:
  "segmentData overlapData 4 =
     Some [\<lparr>seg_data = [1, 3, 2, 5], seg_position = 0\<rparr>,
           \<lparr>seg_data = [2, 5, 2, 6], seg_position = 2\<rparr>,
           \<lparr>seg_data = [2, 6, 4, 10], seg_position = 4\<rparr>,
           \<lparr>seg_data = [4, 10, 4, 12], seg_position = 6\<rparr>]"
  by (simp add: segmentData_def overlapData_def segmentLoop.simps stepOf_4)

lemma segmentData_overlap_4': "segmentData overlapData 4 = Some overlapSegments"
  by (simp add: segmentData_overlap_4 overlapSegments_def)

lemma corr_first: "calculateCorrelation [1, 3, 2, 5] [2, 6, 4, 10] = Num 1"
proof -
  have s: "sqrt (1225 / 4) = 35 / 2"
    by (rule real_sqrt_unique) (simp_all add: power2_eq_square)
  show ?thesis
    by (simp add: calculateCorrelation_def Let_def jsub_def js_is_zero_def s)
qed

lemma corr_second: "calculateCorrelation [2, 5, 2, 6] [4, 10, 4, 12] = Num 1"
proof -
  have s: "sqrt (2601 / 4) = 51 / 2"
    by (rule real_sqrt_unique) (simp_all add: power2_eq_square)
  show ?thesis
    by (simp add: calculateCorrelation_def Let_def jsub_def js_is_zero_def s)
qed

lemma corr_overlap_no_match:
  "\<not> js_gt (calculateCorrelation [1, 3, 2, 5] [2, 5, 2, 6]) matchThreshold"
  "\<not> js_gt (calculateCorrelation [1, 3, 2, 5] [4, 10, 4, 12]) matchThreshold"
  "\<not> js_gt (calculateCorrelation [2, 5, 2, 6] [2, 6, 4, 10]) matchThreshold"
  "\<not> js_gt (calculateCorrelation [2, 6, 4, 10] [4, 10, 4, 12]) matchThreshold"
proof -
  show "\<not> js_gt (calculateCorrelation [1, 3, 2, 5] [2, 5, 2, 6]) matchThreshold"
    using roundD_int[of 10]
    by (intro no_match_small_num[where x = "39 / 4" and q = "1785 / 16" and c = 10])
       (simp_all add: corrNumerator_def corrRadicand_def jsub_def)
  show "\<not> js_gt (calculateCorrelation [1, 3, 2, 5] [4, 10, 4, 12]) matchThreshold"
    using roundD_int[of 21]
    by (intro no_match_small_num[where x = "39 / 2" and q = "1785 / 4" and c = 21])
       (simp_all add: corrNumerator_def corrRadicand_def jsub_def)
  show "\<not> js_gt (calculateCorrelation [2, 5, 2, 6] [2, 6, 4, 10]) matchThreshold"
    using roundD_int[of 21]
    by (intro no_match_small_num[where x = "39 / 2" and q = "1785 / 4" and c = 21])
       (simp_all add: corrNumerator_def corrRadicand_def jsub_def)
  show "\<not> js_gt (calculateCorrelation [2, 6, 4, 10] [4, 10, 4, 12]) matchThreshold"
    using roundD_int[of 42]
    by (intro no_match_small_num[where x = 39 and q = 1785 and c = 42])
       (simp_all add: corrNumerator_def corrRadicand_def jsub_def)
qed

lemma corr_noPattern_no_match:
  "\<not> js_gt (calculateCorrelation [3, 1, 4, 1] [4, 1, 5, 9]) matchThreshold"
  by (intro no_match_nonpos_num[where x = "- (3 / 4)"])
     (simp_all add: corrNumerator_def jsub_def fl_minus)

lemma corr_scale1_no_match:
  "\<not> js_gt (calculateCorrelation [1, 3, 2, 5, 2, 6] [5, 2, 6, 4, 10, 4]) matchThreshold"
proof -
  from fl_between[of 98 "589 / 6" 99] roundD_int[of 98] roundD_int[of 99]
  obtain r where r: "fl (589 / 6) = Num r" "98 \<le> r" "r \<le> 99" by auto
  from fl_between[of "- 12" "87 - r" "- 11"] roundD_int[of "- 12"] roundD_int[of "- 11"] r(2,3)
  obtain z where z: "fl (87 - r) = Num z" "z \<le> - 11" by auto
  have "corrNumerator [1, 3, 2, 5, 2, 6] [5, 2, 6, 4, 10, 4] = Num z"
    by (simp add: corrNumerator_def jsub_def r(1) z(1))
  with z(2) show ?thesis
    by (intro no_match_nonpos_num[where x = z]) simp_all
qed







lemma upt_4: "[0 ..< 4] = [0, 1, 2, 3]" "[1 ..< 4] = [1, 2, 3]" "[2 ..< 4] = [2, 3]" "[3 ..< 4] = [3]"
  by (simp_all add: upt_rec)

lemma similar_overlap_6:
  "findSimilarSegments [\<lparr>seg_data = [1, 3, 2, 5, 2, 6], seg_position = 0\<rparr>,
           \<lparr>seg_data = [5, 2, 6, 4, 10, 4], seg_position = 3\<rparr>] = []"
  by (simp add: findSimilarSegments_def matchesOf_def Let_def upt_rec corr_scale1_no_match)

lemma matchesOf_overlap:
  "matchesOf overlapSegments 0 = [\<lparr>m_index = 2, m_position = 4, m_correlation = Num 1\<rparr>]"
  "matchesOf overlapSegments 1 = [\<lparr>m_index = 3, m_position = 6, m_correlation = Num 1\<rparr>]"
  "matchesOf overlapSegments 2 = []"
  "matchesOf overlapSegments 3 = []"
  by (simp_all add: overlapSegments_def matchesOf_def Let_def upt_rec corr_first corr_second
      corr_overlap_no_match js_gt_matchThreshold)

lemma similar_overlap_4:
  "findSimilarSegments overlapSegments =
     [\<lparr>masterIndex = 0, masterPosition = 0, masterData = [1, 3, 2, 5],
       matches = [\<lparr>m_index = 2, m_position = 4, m_correlation = Num 1\<rparr>]\<rparr>,
      \<lparr>masterIndex = 1, masterPosition = 2, masterData = [2, 5, 2, 6],
       matches = [\<lparr>m_index = 3, m_position = 6, m_correlation = Num 1\<rparr>]\<rparr>]"
proof -
  have len: "length overlapSegments = 4" by (simp add: overlapSegments_def)
  have nth: "overlapSegments ! 0 = \<lparr>seg_data = [1, 3, 2, 5], seg_position = 0\<rparr>"
    "overlapSegments ! 1 = \<lparr>seg_data = [2, 5, 2, 6], seg_position = 2\<rparr>"
    by (simp_all add: overlapSegments_def)
  show ?thesis
    unfolding findSimilarSegments_def len upt_4
    using matchesOf_overlap nth by (simp add: Let_def)
qed

lemma ratio_overlap:
  "calculateCompressionRatio (findSimilarSegments overlapSegments) 4 = - 1 / 2"
  by (simp add: similar_overlap_4 calculateCompressionRatio_def ratioStep_def Let_def)

lemma detectLoop_overlap: "detectLoop overlapData 1 [] = Some [overlapPattern]"
proof -
  have three: "detectLoop overlapData 3 [overlapPattern] = Some [overlapPattern]"
    by (subst detectLoop.simps) (simp add: length_overlapData sizeAtScale_11)
  have "detectLoop overlapData 2 [] = detectLoop overlapData 3 [overlapPattern]"
    using ratio_overlap
    by (subst detectLoop.simps)
       (simp add: length_overlapData sizeAtScale_11 segmentData_overlap_4' similar_overlap_4
         overlapPattern_def)
  with three have two: "detectLoop overlapData 2 [] = Some [overlapPattern]"
    by simp
  have "detectLoop overlapData 1 [] = detectLoop overlapData 2 []"
    by (subst detectLoop.simps)
       (simp add: length_overlapData sizeAtScale_11 segmentData_overlap_6 similar_overlap_6
         del: One_nat_def)
  with two show ?thesis by simp
qed

lemma createEncodedStructure_overlap:
  "createEncodedStructure overlapData overlapPattern = overlapStructure"
  by (simp add: createEncodedStructure_def similar_overlap_4 addSimilarity_def addMatch_def
      Let_def overlapData_def overlapStructure_def overlapPattern_def upt_rec)

lemma encode_overlap: "encode overlapData = Some overlapResult"
proof -
  have size: "calculateEncodedSize overlapStructure = 144"
    by (simp add: calculateEncodedSize_def overlapStructure_def)
  have ps: "compressionRatio overlapPattern = - 1 / 2" "scale overlapPattern = 2"
    by (simp_all add: overlapPattern_def)
  have "detectFractalPatterns overlapData = Some [overlapPattern]"
    unfolding detectFractalPatterns_def detectLoop_overlap by simp
  then show ?thesis
    by (simp add: encode_def createEncodedStructure_overlap size overlapResult_def
        length_overlapData ps)
qed

lemma decodeWrites_overlap:
  "decodeWrites overlapStructure =
     [(0, [1, 3, 2, 5]), (4, [1, 3, 2, 5]), (2, [2, 5, 2, 6]), (6, [2, 5, 2, 6]),
      (1, [3]), (3, [5]), (5, [6]), (7, [10]), (8, [4]), (9, [12]), (10, [0])]"
  by (simp add: decodeWrites_def masterWrites_def residualWrites_def overlapStructure_def upt_rec)

lemma threePhaseWrites_overlap:
  "threePhaseWrites overlapStructure =
     [(0, [1, 3, 2, 5]), (2, [2, 5, 2, 6]), (4, [1, 3, 2, 5]), (6, [2, 5, 2, 6]),
      (1, [3]), (3, [5]), (5, [6]), (7, [10]), (8, [4]), (9, [12]), (10, [0])]"
  by (simp add: threePhaseWrites_def residualWrites_def overlapStructure_def)

lemma decodeStructure_overlap:
  "decodeStructure overlapStructure =
     [Some 1, Some 3, Some 2, Some 5, Some 2, Some 6, Some 2, Some 10, Some 4, Some 12, Some 0]"
proof -
  have len: "originalLength (header overlapStructure) = 11"
    by (simp add: overlapStructure_def)
  show ?thesis
    unfolding decodeStructure_lastWriter len decodeWrites_overlap
    by (simp add: upt_rec covers_def)
qed

lemma threePhase_overlap:
  "map (lastWriter (threePhaseWrites overlapStructure)) [0 ..< 11] =
     [Some 1, Some 3, Some 2, Some 5, Some 1, Some 6, Some 2, Some 10, Some 4, Some 12, Some 0]"
  unfolding threePhaseWrites_overlap by (simp add: upt_rec covers_def)

lemma noCluster_noPatternData: "noClusterAtAnyScale noPatternData"
  unfolding noClusterAtAnyScale_def
proof (intro ballI impI)
  fix sc :: nat
  assume sc: "sc \<in> {1 .. 8}" and big: "4 \<le> sizeAtScale (length noPatternData) sc"
  have len: "length noPatternData = 7" by (simp add: noPatternData_def)
  from big sizeAtScale_7_small[of sc] sc have sc1: "sc = 1"
    unfolding len by (cases "2 \<le> sc") auto
  have "segmentData noPatternData 4 =
      Some [\<lparr>seg_data = [3, 1, 4, 1], seg_position = 0\<rparr>,
            \<lparr>seg_data = [4, 1, 5, 9], seg_position = 2\<rparr>]"
    by (simp add: segmentData_def noPatternData_def segmentLoop.simps stepOf_4)
  moreover have "findSimilarSegments [\<lparr>seg_data = [3, 1, 4, 1], seg_position = 0\<rparr>,
            \<lparr>seg_data = [4, 1, 5, 9], seg_position = 2\<rparr>] = []"
    by (simp add: findSimilarSegments_def matchesOf_def Let_def upt_rec corr_noPattern_no_match)
  ultimately show "clustersAtScale noPatternData sc = Some []"
    unfolding sc1 clustersAtScale_def len sizeAtScale_7_1 by simp
qed



lemma success_overlapResult: "success overlapResult"
  by (simp add: overlapResult_def)

lemma encoded_overlapResult: "encoded overlapResult = overlapStructure"
  by (simp add: overlapResult_def)

subsection \<open>Encode and decode\<close>

text \<open>
  C1. For every input on which \<open>encode\<close> succeeds, every offset below the input's
  length is reached by a record of the encoded structure: it lies in a master
  segment's range, or in a reference's range, or it is the offset of a residual
  record. (Only starting offsets enter \<open>usedPositions\<close>, so every other offset is a
  residual.)
\<close>

theorem encode_coverage:
  assumes "encode d = Some r" and "success r" and "off < length d"
  shows "coveredByMaster (encoded r) off \<or> coveredByReference (encoded r) off
       \<or> isResidualOffset (encoded r) off"
proof -
  from encode_success[OF assms(1,2)] obtain p where ok: "patternOK d p"
    and enc: "encoded r = createEncodedStructure d p" by blast
  have "\<forall>sim\<in>set (patterns p). masterData sim \<noteq> []"
  proof
    fix sim assume "sim \<in> set (patterns p)"
    from patternOK_masterData[OF ok this] ok show "masterData sim \<noteq> []"
      by (auto simp: patternOK_def)
  qed
  from createEncodedStructure_covered[OF this assms(3)] enc show ?thesis by simp
qed

theorem encode_coverage_witness:
  "encode overlapData = Some overlapResult \<and> success overlapResult \<and> 4 < length overlapData \<and>
   (coveredByMaster (encoded overlapResult) 4 \<or> coveredByReference (encoded overlapResult) 4
    \<or> isResidualOffset (encoded overlapResult) 4)"
proof -
  have len: "4 < length overlapData" by (simp add: length_overlapData)
  from encode_coverage[OF encode_overlap success_overlapResult len]
  show ?thesis using encode_overlap success_overlapResult len by simp
qed

text \<open>
  C10. For every successful encode, every reference record's \<open>masterIndex\<close> is a
  valid index into the list of master segments.
\<close>

theorem encode_masterIndex_valid:
  assumes "encode d = Some r" and "success r" and "ref \<in> set (references (encoded r))"
  shows "r_masterIndex ref < length (masterSegments (encoded r))"
proof -
  from encode_success[OF assms(1,2)] obtain p where
    enc: "encoded r = createEncodedStructure d p" by blast
  with assms(3) createEncodedStructure_masterIndex[of ref d p] show ?thesis by simp
qed

theorem encode_masterIndex_valid_witness:
  "encode overlapData = Some overlapResult \<and> success overlapResult \<and>
   \<lparr>r_masterIndex = 1, r_position = 6, r_correlation = Num 1\<rparr>
     \<in> set (references (encoded overlapResult)) \<and>
   r_masterIndex \<lparr>r_masterIndex = 1, r_position = 6, r_correlation = Num 1\<rparr>
     < length (masterSegments (encoded overlapResult))"
proof -
  have mem: "\<lparr>r_masterIndex = 1, r_position = 6, r_correlation = Num 1\<rparr>
      \<in> set (references (encoded overlapResult))"
    by (simp add: encoded_overlapResult overlapStructure_def)
  from encode_masterIndex_valid[OF encode_overlap success_overlapResult mem]
  show ?thesis using encode_overlap success_overlapResult mem by simp
qed

text \<open>
  C2. For every input on which \<open>encode\<close> succeeds and every residual record of the
  result, \<open>decode\<close> returns a sequence of the input's length that holds, at the
  record's offset, exactly the input's value at that offset.
\<close>

theorem decode_residual_exact:
  assumes "encode d = Some r" and "success r" and "e \<in> set (residual (encoded r))"
  shows "\<exists>out. decode r = Inr out \<and> length out = length d \<and> res_position e < length d
       \<and> out ! res_position e = Some (d ! res_position e)"
proof -
  from encode_success[OF assms(1,2)] obtain p where
    enc: "encoded r = createEncodedStructure d p" by blast
  from assms(3) enc have e: "e \<in> set (residual (createEncodedStructure d p))" by simp
  from residual_createEncodedStructure(2)[OF e] decodeStructure_residual[OF e] assms(2) enc
  show ?thesis
    by (simp add: decode_def decodeStructure_lastWriter originalLength_createEncodedStructure)
qed

theorem decode_residual_exact_witness:
  "encode overlapData = Some overlapResult \<and> success overlapResult \<and>
   \<lparr>res_position = 5, res_value = 6\<rparr> \<in> set (residual (encoded overlapResult)) \<and>
   (\<exists>out. decode overlapResult = Inr out \<and> length out = length overlapData \<and>
      5 < length overlapData \<and> out ! 5 = Some (overlapData ! 5))"
proof -
  have mem: "\<lparr>res_position = 5, res_value = 6\<rparr> \<in> set (residual (encoded overlapResult))"
    by (simp add: encoded_overlapResult overlapStructure_def)
  from decode_residual_exact[OF encode_overlap success_overlapResult mem]
  show ?thesis using encode_overlap success_overlapResult mem by simp
qed

text \<open>
  C4 (as amended). For every successful encode result, \<open>decode\<close> writes, for each
  master segment in list order, the master's values and then the values copied for
  the references that carry this master's index (in reference-list order), and after
  the last master every residual value. On an offset written more than once the later
  write in this order determines the decoded value; an offset no write covers stays
  unset.
\<close>

theorem decode_last_writer_wins:
  "success r \<Longrightarrow>
   decode r = Inr (map (lastWriter (decodeWrites (encoded r)))
                    [0 ..< originalLength (header (encoded r))])"
proof -
  assume ok: "success r"
  let ?st = "encoded r"
  let ?n = "originalLength (header ?st)"
  have run: "decodeStructure ?st = applyWrites (decodeWrites ?st) (replicate ?n None)"
    by (rule decodeStructure_applyWrites)
  have "decodeStructure ?st = map (lastWriter (decodeWrites ?st)) [0 ..< ?n]"
  proof (rule nth_equalityI)
    show "length (decodeStructure ?st) = length (map (lastWriter (decodeWrites ?st)) [0 ..< ?n])"
      unfolding run by simp
  next
    fix off assume "off < length (decodeStructure ?st)"
    then have off: "off < ?n" unfolding run by simp
    then have "applyWrites (decodeWrites ?st) (replicate ?n None) ! off
        = (case lastWriter (decodeWrites ?st) off of Some v \<Rightarrow> Some v | None \<Rightarrow> None)"
      by (simp add: nth_applyWrites split: option.splits)
    with off show "decodeStructure ?st ! off = map (lastWriter (decodeWrites ?st)) [0 ..< ?n] ! off"
      unfolding run by (simp split: option.splits)
  qed
  with ok show ?thesis by (simp add: decode_def)
qed

theorem decode_last_writer_wins_witness:
  "success overlapResult \<and>
   decode overlapResult = Inr (map (lastWriter (decodeWrites (encoded overlapResult)))
                                [0 ..< originalLength (header (encoded overlapResult))])"
  using decode_last_writer_wins[OF success_overlapResult] success_overlapResult by simp

text \<open>
  C4 as stated fails: \<open>decode\<close> does not finish the masters before the references.
  On \<open>overlapData\<close> the reference at offset 4 (copying the first master) is written
  before the second master, whose range 2..5 overlaps it; the decoded value at offset
  4 is the second master's \<open>2\<close>, where the three-phase order of the claim gives the
  first master's \<open>1\<close>.
\<close>

theorem decode_not_three_phases:
  "encode overlapData = Some overlapResult \<and> success overlapResult \<and>
   decode overlapResult =
     Inr [Some 1, Some 3, Some 2, Some 5, Some 2, Some 6, Some 2, Some 10, Some 4, Some 12, Some 0] \<and>
   map (lastWriter (threePhaseWrites (encoded overlapResult)))
     [0 ..< originalLength (header (encoded overlapResult))] =
     [Some 1, Some 3, Some 2, Some 5, Some 1, Some 6, Some 2, Some 10, Some 4, Some 12, Some 0] \<and>
   decode overlapResult \<noteq>
     Inr (map (lastWriter (threePhaseWrites (encoded overlapResult)))
            [0 ..< originalLength (header (encoded overlapResult))])"
proof -
  have len: "originalLength (header overlapStructure) = 11"
    by (simp add: overlapStructure_def)
  have dec: "decode overlapResult =
      Inr [Some 1, Some 3, Some 2, Some 5, Some 2, Some 6, Some 2, Some 10, Some 4, Some 12, Some 0]"
    by (simp add: decode_def success_overlapResult encoded_overlapResult decodeStructure_overlap)
  have three: "map (lastWriter (threePhaseWrites (encoded overlapResult)))
      [0 ..< originalLength (header (encoded overlapResult))] =
      [Some 1, Some 3, Some 2, Some 5, Some 1, Some 6, Some 2, Some 10, Some 4, Some 12, Some 0]"
    unfolding encoded_overlapResult len by (rule threePhase_overlap)
  show ?thesis
    unfolding three dec using encode_overlap success_overlapResult by simp
qed

text \<open>
  C9. For every input on which no scale yields a cluster, \<open>encode\<close> returns the
  failure result: the success flag is false, \<open>compressedSize\<close> equals \<open>originalSize\<close>
  (the input's length) and the ratio is \<open>0\<close>. \<open>decode\<close> refuses this result.
\<close>

theorem encode_no_cluster_failure:
  assumes "noClusterAtAnyScale d"
  shows "encode d = Some (EncFailure ''No suitable fractal patterns found'' (length d) (length d) 0)
       \<and> decode (EncFailure ''No suitable fractal patterns found'' (length d) (length d) 0)
           = Inl (Error ''Cannot decode failed encoding'')"
  using detectLoop_no_cluster[OF assms, of 1 "[]"]
  by (simp add: encode_def detectFractalPatterns_def decode_def)

theorem encode_no_cluster_failure_witness:
  "noClusterAtAnyScale noPatternData \<and>
   encode noPatternData = Some (EncFailure ''No suitable fractal patterns found'' 7 7 0) \<and>
   decode (EncFailure ''No suitable fractal patterns found'' 7 7 0)
     = Inl (Error ''Cannot decode failed encoding'')"
proof -
  have len: "length noPatternData = 7" by (simp add: noPatternData_def)
  from encode_no_cluster_failure[OF noCluster_noPatternData] noCluster_noPatternData
  show ?thesis unfolding len by simp
qed

subsection \<open>Match records\<close>




end
